theory Spec2Isabelle
  imports Complex_Main "HOL-Library.AList" "HOL-Library.Char_ord" "HOL-Library.List_Lexorder"
    "HOL-Library.Multiset"
begin

section \<open>Data model (lib/types.ts)\<close>

text \<open>
  A \<open>Position\<close> is a mutable JavaScript object with two number fields. Numbers are
  modelled as rationals: every coordinate the layout computes from its constants is a sum,
  a difference or a half of integers, far below the range where doubles round. Rounding,
  infinities and NaN of manual positions are outside the model.
\<close>

record Position =
  posX :: rat
  posY :: rat

datatype Gender = Male | Female | Other | Unspecified

text \<open>
  The fields of \<open>Person\<close> that the cycle guard, the layout engine and the relationship
  resolver read. The field \<open>id\<close> of the source is called \<open>pid\<close> here. The
  field \<open>position\<close> holds a reference (an address in a store of \<open>Position\<close>
  objects) or \<open>null\<close>. The display-only fields (name, surname, occupation, notes, birth,
  death, marriages, avatarUrl) are read by none of the modelled functions.
\<close>

record Person =
  pid :: string
  givenName :: string
  gender :: Gender
  parentIds :: "string list"
  spouseIds :: "string list"
  childIds :: "string list"
  position :: "nat option"

definition createEmptyPerson :: "string \<Rightarrow> Person" where
  "createEmptyPerson i =
     \<lparr>pid = i, givenName = [], gender = Unspecified, parentIds = [], spouseIds = [],
      childIds = [], position = None\<rparr>"

section \<open>JavaScript containers\<close>

text \<open>
  A JavaScript \<open>Map\<close> keeps its keys in insertion order, and setting an existing key
  keeps the key's place: an association list with \<open>AList.update\<close> for \<open>set\<close> and
  \<open>map_of\<close> for \<open>get\<close>. \<open>new Map(entries)\<close> sets the entries one after the other.
\<close>

definition Map_from_entries :: "('k \<times> 'v) list \<Rightarrow> ('k \<times> 'v) list" where
  "Map_from_entries es = fold (\<lambda>e m. AList.update (fst e) (snd e) m) es []"

section \<open>Cycle guard (lib/cycles.ts)\<close>

definition cycles_childrenMap :: "Person list \<Rightarrow> (string \<times> string list) list" where
  "cycles_childrenMap people =
     fold (\<lambda>person m.
            fold (\<lambda>parentId m'.
                   (case map_of m' parentId of
                      Some children \<Rightarrow> AList.update parentId (children @ [pid person]) m'
                    | None \<Rightarrow> m'))
                 (parentIds person) m)
          people
          (fold (\<lambda>person m. AList.update (pid person) [] m) people [])"

text \<open>
  The first loop of \<open>wouldCreateCycle\<close>: a breadth-first walk down the children map.
  The \<open>return true\<close> of the source stands inside the callback of \<open>forEach\<close>, so it
  only ends that callback: the child equal to \<open>potentialParentId\<close> is not pushed, and the
  loop goes on. The loop's only effect is the visited set, which is returned here.
\<close>

function descendants_loop ::
  "(string \<times> string list) list \<Rightarrow> string \<Rightarrow> string list \<Rightarrow> string list \<Rightarrow> string list" where
  "descendants_loop childrenMap potentialParentId queue visited =
     (case queue of
        [] \<Rightarrow> visited
      | currentId # rest \<Rightarrow>
          if currentId \<in> set visited then descendants_loop childrenMap potentialParentId rest visited
          else descendants_loop childrenMap potentialParentId
                 (rest @ filter (\<lambda>descendantId. descendantId \<noteq> potentialParentId)
                           (case map_of childrenMap currentId of Some children \<Rightarrow> children | None \<Rightarrow> []))
                 (visited @ [currentId]))"
  by pat_completeness auto
termination
proof (relation "inv_image (less_than <*lex*> less_than)
                   (\<lambda>(cm, pp, q, v). (card (fst ` set cm - set v), length q))", goal_cases)
  case 1
  show ?case by (intro wf_inv_image wf_lex_prod wf_less_than)
next
  case (2 cm pp queue visited currentId rest)
  then show ?case by simp
next
  case (3 cm pp queue visited currentId rest)
  show ?case
  proof (cases "map_of cm currentId")
    case None
    have "fst ` set cm - set (visited @ [currentId]) \<subseteq> fst ` set cm - set visited"
      by auto
    then have "card (fst ` set cm - set (visited @ [currentId])) \<le> card (fst ` set cm - set visited)"
      by (intro card_mono) auto
    with 3 None show ?thesis by auto
  next
    case (Some cs)
    then have "currentId \<in> fst ` set cm"
      by (metis domI dom_map_of_conv_image_fst)
    with 3 have "fst ` set cm - set (visited @ [currentId]) \<subset> fst ` set cm - set visited"
      by auto
    then have "card (fst ` set cm - set (visited @ [currentId])) < card (fst ` set cm - set visited)"
      by (intro psubset_card_mono) auto
    then show ?thesis by simp
  qed
qed

text \<open>
  The second loop: a breadth-first walk up the \<open>parentIds\<close> of the persons found in
  \<open>peopleMap\<close>, which answers \<open>true\<close> when it takes \<open>childId\<close> from the queue.
\<close>

function ancestor_loop ::
  "(string \<times> Person) list \<Rightarrow> string \<Rightarrow> string list \<Rightarrow> string list \<Rightarrow> bool" where
  "ancestor_loop peopleMap childId ancestorQueue ancestorVisited =
     (case ancestorQueue of
        [] \<Rightarrow> False
      | currentId # rest \<Rightarrow>
          if currentId \<in> set ancestorVisited then ancestor_loop peopleMap childId rest ancestorVisited
          else if currentId = childId then True
          else ancestor_loop peopleMap childId
                 (rest @ (case map_of peopleMap currentId of Some person \<Rightarrow> parentIds person | None \<Rightarrow> []))
                 (ancestorVisited @ [currentId]))"
  by pat_completeness auto
termination
proof (relation "inv_image (less_than <*lex*> less_than)
                   (\<lambda>(pm, c, q, v). (card (fst ` set pm - set v), length q))", goal_cases)
  case 1
  show ?case by (intro wf_inv_image wf_lex_prod wf_less_than)
next
  case (2 pm c queue visited currentId rest)
  then show ?case by simp
next
  case (3 pm c queue visited currentId rest)
  show ?case
  proof (cases "map_of pm currentId")
    case None
    have "fst ` set pm - set (visited @ [currentId]) \<subseteq> fst ` set pm - set visited"
      by auto
    then have "card (fst ` set pm - set (visited @ [currentId])) \<le> card (fst ` set pm - set visited)"
      by (intro card_mono) auto
    with 3 None show ?thesis by auto
  next
    case (Some person)
    then have "currentId \<in> fst ` set pm"
      by (metis domI dom_map_of_conv_image_fst)
    with 3 have "fst ` set pm - set (visited @ [currentId]) \<subset> fst ` set pm - set visited"
      by auto
    then have "card (fst ` set pm - set (visited @ [currentId])) < card (fst ` set pm - set visited)"
      by (intro psubset_card_mono) auto
    then show ?thesis by simp
  qed
qed

definition wouldCreateCycle :: "Person list \<Rightarrow> string \<Rightarrow> string \<Rightarrow> bool" where
  "wouldCreateCycle people childId potentialParentId =
     (if childId = potentialParentId then True
      else
        let peopleMap = Map_from_entries (map (\<lambda>p. (pid p, p)) people);
            childrenMap = cycles_childrenMap people;
            visited = descendants_loop childrenMap potentialParentId [childId] []
        in ancestor_loop peopleMap childId [potentialParentId] [])"


declare descendants_loop.simps [simp del]
declare ancestor_loop.simps [simp del]

section \<open>Relationship resolver (lib/relationships.ts)\<close>

text \<open>
  \<open>people.find(p => p.id === i)\<close>: the first person of the list with that id.
\<close>

definition find_person :: "Person list \<Rightarrow> string \<Rightarrow> Person option" where
  "find_person people i = find (\<lambda>p. pid p = i) people"

text \<open>
  A \<open>for\<close> loop that returns from the function at the first element for which its body
  produces a result.
\<close>

fun first_some :: "('a \<Rightarrow> 'b option) \<Rightarrow> 'a list \<Rightarrow> 'b option" where
  "first_some f [] = None"
| "first_some f (a # as) = (case f a of Some r \<Rightarrow> Some r | None \<Rightarrow> first_some f as)"

text \<open>
  \<open>findPath\<close>: depth-first search along parents, then children, then spouses. Each
  recursive call receives a copy of the visited set (\<open>new Set(visited)\<close>), so the set a
  call sees holds exactly the ids on the way from the start. \<open>findPath_each\<close> is one of
  the three \<open>for\<close> loops over neighbour ids.
\<close>

function findPath ::
    "Person list \<Rightarrow> string \<Rightarrow> string \<Rightarrow> string list \<Rightarrow> string list \<Rightarrow> string list option"
  and findPath_each ::
    "Person list \<Rightarrow> string list \<Rightarrow> string \<Rightarrow> string list \<Rightarrow> string list \<Rightarrow> string list option"
  where
  "findPath people fromId toId visited path =
     (if fromId = toId then Some (path @ [fromId])
      else if fromId \<in> set visited then None
      else (case find_person people fromId of
              None \<Rightarrow> None
            | Some current \<Rightarrow>
                (case findPath_each people (parentIds current) toId (visited @ [fromId]) (path @ [fromId]) of
                   Some result \<Rightarrow> Some result
                 | None \<Rightarrow>
                     (case findPath_each people (childIds current) toId (visited @ [fromId]) (path @ [fromId]) of
                        Some result \<Rightarrow> Some result
                      | None \<Rightarrow>
                          findPath_each people (spouseIds current) toId (visited @ [fromId]) (path @ [fromId])))))"
| "findPath_each people [] toId visited path = None"
| "findPath_each people (nextId # rest) toId visited path =
     (case findPath people nextId toId visited path of
        Some result \<Rightarrow> Some result
      | None \<Rightarrow> findPath_each people rest toId visited path)"
  by pat_completeness auto
termination
proof (relation "inv_image (less_than <*lex*> less_than)
         (\<lambda>a. case a of
                Inl (people, fromId, toId, visited, path) \<Rightarrow>
                  (card (pid ` set people - set visited), 0)
              | Inr (people, ids, toId, visited, path) \<Rightarrow>
                  (card (pid ` set people - set visited), Suc (length ids)))", goal_cases)
  case 1
  show ?case by (intro wf_inv_image wf_lex_prod wf_less_than)
next
  case (2 people fromId toId visited path current)
  then have "fromId \<in> pid ` set people"
    by (auto simp: find_person_def find_Some_iff)
  with 2 have "pid ` set people - set (visited @ [fromId]) \<subset> pid ` set people - set visited"
    by auto
  then have "card (pid ` set people - set (visited @ [fromId])) < card (pid ` set people - set visited)"
    by (intro psubset_card_mono) auto
  then show ?case by simp
next
  case (3 people fromId toId visited path current)
  then have "fromId \<in> pid ` set people"
    by (auto simp: find_person_def find_Some_iff)
  with 3 have "pid ` set people - set (visited @ [fromId]) \<subset> pid ` set people - set visited"
    by auto
  then have "card (pid ` set people - set (visited @ [fromId])) < card (pid ` set people - set visited)"
    by (intro psubset_card_mono) auto
  then show ?case by simp
next
  case (4 people fromId toId visited path current)
  then have "fromId \<in> pid ` set people"
    by (auto simp: find_person_def find_Some_iff)
  with 4 have "pid ` set people - set (visited @ [fromId]) \<subset> pid ` set people - set visited"
    by auto
  then have "card (pid ` set people - set (visited @ [fromId])) < card (pid ` set people - set visited)"
    by (intro psubset_card_mono) auto
  then show ?case by simp
next
  case 5
  then show ?case by simp
next
  case 6
  then show ?case by simp
qed

text \<open>
  \<open>getGenerationDiff\<close>: the loop over the consecutive pairs of the path, with the
  running \<open>genDiff\<close>. A pair with an id that is not in \<open>people\<close> is skipped.
\<close>

fun getGenerationDiff_loop :: "Person list \<Rightarrow> string list \<Rightarrow> int \<Rightarrow> int" where
  "getGenerationDiff_loop people (a # b # rest) genDiff =
     (case find_person people a of
        None \<Rightarrow> getGenerationDiff_loop people (b # rest) genDiff
      | Some current \<Rightarrow>
          (case find_person people b of
             None \<Rightarrow> getGenerationDiff_loop people (b # rest) genDiff
           | Some next \<Rightarrow>
               if pid next \<in> set (parentIds current)
               then getGenerationDiff_loop people (b # rest) (genDiff - 1)
               else if pid next \<in> set (childIds current)
               then getGenerationDiff_loop people (b # rest) (genDiff + 1)
               else getGenerationDiff_loop people (b # rest) genDiff))"
| "getGenerationDiff_loop people [a] genDiff = genDiff"
| "getGenerationDiff_loop people [] genDiff = genDiff"

definition getGenerationDiff :: "Person list \<Rightarrow> string \<Rightarrow> string \<Rightarrow> string list \<Rightarrow> int" where
  "getGenerationDiff people fromId toId path = getGenerationDiff_loop people path 0"

fun goesThoughSpouse :: "Person list \<Rightarrow> string list \<Rightarrow> bool" where
  "goesThoughSpouse people (a # b # rest) =
     (case find_person people a of
        None \<Rightarrow> goesThoughSpouse people (b # rest)
      | Some current \<Rightarrow>
          (case find_person people b of
             None \<Rightarrow> goesThoughSpouse people (b # rest)
           | Some next \<Rightarrow>
               if pid next \<in> set (spouseIds current) then True
               else goesThoughSpouse people (b # rest)))"
| "goesThoughSpouse people [a] = False"
| "goesThoughSpouse people [] = False"

text \<open>
  The result of \<open>findRelationship\<close>. The Tamil label is picked by the same branch as the
  English one and is a constant of that branch; it is left out. The field \<open>path\<close> of
  the source is called \<open>result_path\<close>.
\<close>

record RelationshipResult =
  english :: string
  result_path :: "string list"

text \<open>
  The recurring three-way choice on \<open>person2Gender\<close>: \<open>"male"\<close>, else \<open>"female"\<close>,
  else the neutral label.
\<close>

definition by_gender :: "Gender \<Rightarrow> string \<Rightarrow> string \<Rightarrow> string \<Rightarrow> string" where
  "by_gender g m f n = (if g = Male then m else if g = Female then f else n)"

text \<open>
  \<open>people.filter(p => p.id !== i && p.parentIds.some(pid => q.parentIds.includes(pid)))\<close>:
  the siblings of person \<open>q\<close> known under the id \<open>i\<close>.
\<close>

definition siblings_of :: "Person list \<Rightarrow> string \<Rightarrow> Person \<Rightarrow> Person list" where
  "siblings_of people i q =
     filter (\<lambda>p. pid p \<noteq> i \<and> list_ex (\<lambda>x. x \<in> set (parentIds q)) (parentIds p)) people"

text \<open>The rules of \<open>findRelationship\<close>, in the order of the source.\<close>

definition rule_spouse :: "Person \<Rightarrow> Person \<Rightarrow> string option" where
  "rule_spouse person1 person2 =
     (if pid person2 \<in> set (spouseIds person1)
      then Some (by_gender (gender person2) ''Husband'' ''Wife'' ''Spouse'') else None)"

definition rule_parent :: "Person \<Rightarrow> Person \<Rightarrow> string option" where
  "rule_parent person1 person2 =
     (if pid person2 \<in> set (parentIds person1)
      then Some (by_gender (gender person2) ''Father'' ''Mother'' ''Parent'') else None)"

definition rule_child :: "Person \<Rightarrow> Person \<Rightarrow> string option" where
  "rule_child person1 person2 =
     (if pid person2 \<in> set (childIds person1)
      then Some (by_gender (gender person2) ''Son'' ''Daughter'' ''Child'') else None)"

definition rule_sibling :: "Person \<Rightarrow> Person \<Rightarrow> string option" where
  "rule_sibling person1 person2 =
     (let sharedParents = filter (\<lambda>x. x \<in> set (parentIds person2)) (parentIds person1)
      in if length sharedParents > 0
         then Some (by_gender (gender person2) ''Brother'' ''Sister'' ''Sibling'') else None)"

definition rule_grandparent :: "Person list \<Rightarrow> Person \<Rightarrow> Person \<Rightarrow> string option" where
  "rule_grandparent people person1 person2 =
     first_some (\<lambda>parentId.
        case find_person people parentId of
          None \<Rightarrow> None
        | Some parent \<Rightarrow>
            if pid person2 \<in> set (parentIds parent)
            then Some (by_gender (gender person2) ''Grandfather'' ''Grandmother'' ''Grandparent'')
            else None)
       (parentIds person1)"

definition rule_grandchild :: "Person list \<Rightarrow> Person \<Rightarrow> Person \<Rightarrow> string option" where
  "rule_grandchild people person1 person2 =
     first_some (\<lambda>childId.
        case find_person people childId of
          None \<Rightarrow> None
        | Some child \<Rightarrow>
            if pid person2 \<in> set (childIds child)
            then Some (by_gender (gender person2) ''Grandson'' ''Granddaughter'' ''Grandchild'')
            else None)
       (childIds person1)"

definition rule_great_grandparent :: "Person list \<Rightarrow> Person \<Rightarrow> Person \<Rightarrow> string option" where
  "rule_great_grandparent people person1 person2 =
     first_some (\<lambda>parentId.
        case find_person people parentId of
          None \<Rightarrow> None
        | Some parent \<Rightarrow>
            first_some (\<lambda>gpId.
               case find_person people gpId of
                 None \<Rightarrow> None
               | Some gp \<Rightarrow>
                   if pid person2 \<in> set (parentIds gp)
                   then Some (by_gender (gender person2)
                                ''Great Grandfather'' ''Great Grandmother'' ''Great Grandparent'')
                   else None)
              (parentIds parent))
       (parentIds person1)"

definition rule_great_grandchild :: "Person list \<Rightarrow> Person \<Rightarrow> Person \<Rightarrow> string option" where
  "rule_great_grandchild people person1 person2 =
     first_some (\<lambda>childId.
        case find_person people childId of
          None \<Rightarrow> None
        | Some child \<Rightarrow>
            first_some (\<lambda>gcId.
               case find_person people gcId of
                 None \<Rightarrow> None
               | Some gc \<Rightarrow>
                   if pid person2 \<in> set (childIds gc)
                   then Some (by_gender (gender person2)
                                ''Great Grandson'' ''Great Granddaughter'' ''Great Grandchild'')
                   else None)
              (childIds child))
       (childIds person1)"

definition rule_uncle_aunt :: "Person list \<Rightarrow> Person \<Rightarrow> Person \<Rightarrow> string option" where
  "rule_uncle_aunt people person1 person2 =
     first_some (\<lambda>parentId.
        case find_person people parentId of
          None \<Rightarrow> None
        | Some parent \<Rightarrow>
            let parentSiblings = siblings_of people parentId parent in
            if list_ex (\<lambda>s. pid s = pid person2) parentSiblings
            then (let parentGender = gender parent in
                  if gender person2 = Male
                  then (if parentGender = Female then Some ''Maternal Uncle''
                        else Some ''Paternal Uncle'')
                  else if gender person2 = Female
                  then (if parentGender = Female then Some ''Maternal Aunt''
                        else Some ''Paternal Aunt'')
                  else Some ''Uncle/Aunt'')
            else first_some (\<lambda>sibling.
                   if pid person2 \<in> set (spouseIds sibling)
                   then (if gender person2 = Male then Some ''Uncle (by marriage)''
                         else Some ''Aunt (by marriage)'')
                   else None)
                  parentSiblings)
       (parentIds person1)"

definition rule_nephew_niece :: "Person list \<Rightarrow> Person \<Rightarrow> Person \<Rightarrow> string option" where
  "rule_nephew_niece people person1 person2 =
     first_some (\<lambda>sibling.
        if pid person2 \<in> set (childIds sibling)
        then Some (by_gender (gender person2) ''Nephew'' ''Niece'' ''Nephew/Niece'')
        else None)
       (siblings_of people (pid person1) person1)"

definition rule_cousin :: "Person list \<Rightarrow> Person \<Rightarrow> Person \<Rightarrow> string option" where
  "rule_cousin people person1 person2 =
     first_some (\<lambda>parentId.
        case find_person people parentId of
          None \<Rightarrow> None
        | Some parent \<Rightarrow>
            first_some (\<lambda>uncle.
               if pid person2 \<in> set (childIds uncle)
               then Some (by_gender (gender person2) ''Cousin Brother'' ''Cousin Sister'' ''Cousin'')
               else None)
              (siblings_of people parentId parent))
       (parentIds person1)"

definition rule_parent_in_law :: "Person list \<Rightarrow> Person \<Rightarrow> Person \<Rightarrow> string option" where
  "rule_parent_in_law people person1 person2 =
     first_some (\<lambda>spouseId.
        case find_person people spouseId of
          None \<Rightarrow> None
        | Some spouse \<Rightarrow>
            if pid person2 \<in> set (parentIds spouse)
            then Some (by_gender (gender person2) ''Father-in-law'' ''Mother-in-law'' ''Parent-in-law'')
            else None)
       (spouseIds person1)"

definition rule_child_in_law :: "Person list \<Rightarrow> Person \<Rightarrow> Person \<Rightarrow> string option" where
  "rule_child_in_law people person1 person2 =
     first_some (\<lambda>childId.
        case find_person people childId of
          None \<Rightarrow> None
        | Some child \<Rightarrow>
            if pid person2 \<in> set (spouseIds child)
            then Some (by_gender (gender person2) ''Son-in-law'' ''Daughter-in-law'' ''Child-in-law'')
            else None)
       (childIds person1)"

definition rule_spouse_sibling :: "Person list \<Rightarrow> Person \<Rightarrow> Person \<Rightarrow> string option" where
  "rule_spouse_sibling people person1 person2 =
     first_some (\<lambda>spouseId.
        case find_person people spouseId of
          None \<Rightarrow> None
        | Some spouse \<Rightarrow>
            if list_ex (\<lambda>s. pid s = pid person2) (siblings_of people spouseId spouse)
            then Some (by_gender (gender person2) ''Brother-in-law'' ''Sister-in-law'' ''Sibling-in-law'')
            else None)
       (spouseIds person1)"

definition rule_sibling_spouse :: "Person list \<Rightarrow> Person \<Rightarrow> Person \<Rightarrow> string option" where
  "rule_sibling_spouse people person1 person2 =
     first_some (\<lambda>sibling.
        if pid person2 \<in> set (spouseIds sibling)
        then (if gender person1 = Male
              then (if gender person2 = Male then Some ''Brother-in-law'' else Some ''Sister-in-law'')
              else (if gender person2 = Male then Some ''Brother-in-law'' else Some ''Sister-in-law''))
        else None)
       (siblings_of people (pid person1) person1)"

definition rule_co_sibling :: "Person list \<Rightarrow> Person \<Rightarrow> Person \<Rightarrow> string option" where
  "rule_co_sibling people person1 person2 =
     first_some (\<lambda>spouseId.
        case find_person people spouseId of
          None \<Rightarrow> None
        | Some spouse \<Rightarrow>
            first_some (\<lambda>spouseSibling.
               if pid person2 \<in> set (spouseIds spouseSibling)
               then (if gender person2 = Male then Some ''Co-Brother''
                     else if gender person2 = Female then Some ''Co-Sister''
                     else None)
               else None)
              (siblings_of people spouseId spouse))
       (spouseIds person1)"

text \<open>The rules tried one after the other; the first that returns decides.\<close>

definition named_rules :: "Person list \<Rightarrow> Person \<Rightarrow> Person \<Rightarrow> string option" where
  "named_rules people person1 person2 =
     first_some (\<lambda>r. r)
       [rule_spouse person1 person2,
        rule_parent person1 person2,
        rule_child person1 person2,
        rule_sibling person1 person2,
        rule_grandparent people person1 person2,
        rule_grandchild people person1 person2,
        rule_great_grandparent people person1 person2,
        rule_great_grandchild people person1 person2,
        rule_uncle_aunt people person1 person2,
        rule_nephew_niece people person1 person2,
        rule_cousin people person1 person2,
        rule_parent_in_law people person1 person2,
        rule_child_in_law people person1 person2,
        rule_spouse_sibling people person1 person2,
        rule_sibling_spouse people person1 person2,
        rule_co_sibling people person1 person2]"

text \<open>A template literal prints an integer in decimal.\<close>

definition digit_char :: "nat \<Rightarrow> char" where
  "digit_char d = char_of (of_char (CHR ''0'') + d)"

fun string_of_nat :: "nat \<Rightarrow> string" where
  "string_of_nat n =
     (if n < 10 then [digit_char n] else string_of_nat (n div 10) @ [digit_char (n mod 10)])"

definition fallback_label :: "Person list \<Rightarrow> Person \<Rightarrow> Person \<Rightarrow> string list \<Rightarrow> string" where
  "fallback_label people person1 person2 path =
     (let genDiff = getGenerationDiff people (pid person1) (pid person2) path;
          throughSpouse = goesThoughSpouse people path
      in if genDiff < -2 then ''Ancestor ('' @ string_of_nat (nat \<bar>genDiff\<bar>) @ '' generations)''
         else if genDiff > 2 then ''Descendant ('' @ string_of_nat (nat genDiff) @ '' generations)''
         else if throughSpouse then ''Relative by marriage''
         else ''Relative'')"

definition findRelationship :: "Person list \<Rightarrow> Person \<Rightarrow> Person \<Rightarrow> RelationshipResult" where
  "findRelationship people person1 person2 =
     (if pid person1 = pid person2
      then \<lparr>english = ''Same Person'', result_path = [pid person1]\<rparr>
      else (case findPath people (pid person1) (pid person2) [] [] of
              None \<Rightarrow> \<lparr>english = ''No direct relationship found'', result_path = []\<rparr>
            | Some found \<Rightarrow>
                (case named_rules people person1 person2 of
                   Some label \<Rightarrow> \<lparr>english = label, result_path = found\<rparr>
                 | None \<Rightarrow> \<lparr>english = fallback_label people person1 person2 found, result_path = found\<rparr>)))"


section \<open>Layout engine (lib/tree-layout.ts)\<close>

definition NODE_RADIUS :: rat where "NODE_RADIUS = 45"
definition HORIZONTAL_SPACING :: rat where "HORIZONTAL_SPACING = 180"
definition VERTICAL_SPACING :: rat where "VERTICAL_SPACING = 180"
definition SPOUSE_SPACING :: rat where "SPOUSE_SPACING = 100"
definition CANVAS_PADDING :: rat where "CANVAS_PADDING = 100"
definition UNIT_SPACING :: rat where "UNIT_SPACING = 60"
definition CHILD_SPACING :: rat where "CHILD_SPACING = HORIZONTAL_SPACING"
definition COUPLE_GAP :: rat where "COUPLE_GAP = SPOUSE_SPACING"

text \<open>
  \<open>Math.max(...xs)\<close> and \<open>Math.min(...xs)\<close>. The source spreads a list that holds at
  least one number at every call (each call is guarded, or the list ends in a constant, or
  \<open>people\<close> is not empty), so the empty list has no equation.
\<close>

fun Math_max :: "'a::linorder list \<Rightarrow> 'a" where
  "Math_max (v # vs) = fold max vs v"

fun Math_min :: "'a::linorder list \<Rightarrow> 'a" where
  "Math_min (v # vs) = fold min vs v"

text \<open>\<open>Array.prototype.join\<close> with a separator, on strings.\<close>

fun join :: "string \<Rightarrow> string list \<Rightarrow> string" where
  "join sep [] = []"
| "join sep [s] = s"
| "join sep (s # t # ss) = s @ sep @ join sep (t # ss)"

text \<open>\<open>String.prototype.includes\<close>: \<open>str_includes key s\<close> is \<open>key.includes(s)\<close>.\<close>

fun starts_with :: "string \<Rightarrow> string \<Rightarrow> bool" where
  "starts_with key [] = True"
| "starts_with [] (c # cs) = False"
| "starts_with (k # ks) (c # cs) = (k = c \<and> starts_with ks cs)"

fun str_includes :: "string \<Rightarrow> string \<Rightarrow> bool" where
  "str_includes [] s = starts_with [] s"
| "str_includes (k # ks) s = (starts_with (k # ks) s \<or> str_includes ks s)"

text \<open>
  \<open>Array.prototype.sort\<close> with a comparator is stable. For a comparator that is a
  consistent ordering, every stable sort returns the list that this insertion sort returns;
  for an inconsistent comparator the order a JavaScript engine returns is
  implementation-defined.
\<close>

fun insert_by :: "('a \<Rightarrow> 'a \<Rightarrow> int) \<Rightarrow> 'a \<Rightarrow> 'a list \<Rightarrow> 'a list" where
  "insert_by cmp a [] = [a]"
| "insert_by cmp a (b # bs) = (if cmp a b \<le> 0 then a # b # bs else b # insert_by cmp a bs)"

definition sort_by :: "('a \<Rightarrow> 'a \<Rightarrow> int) \<Rightarrow> 'a list \<Rightarrow> 'a list" where
  "sort_by cmp as = foldr (insert_by cmp) as []"

text \<open>\<open>Set.prototype.add\<close> on a set kept as the list of its elements in insertion order.\<close>

definition Set_add :: "'a \<Rightarrow> 'a list \<Rightarrow> 'a list" where
  "Set_add a s = (if a \<in> set s then s else s @ [a])"

definition buildChildrenMap :: "Person list \<Rightarrow> (string \<times> string list) list" where
  "buildChildrenMap people =
     fold (\<lambda>person m.
            fold (\<lambda>parentId m'.
                   (case map_of m' parentId of
                      Some children \<Rightarrow>
                        if pid person \<notin> set children
                        then AList.update parentId (children @ [pid person]) m'
                        else m'
                    | None \<Rightarrow> m'))
                 (parentIds person) m)
          people
          (fold (\<lambda>person m. AList.update (pid person) [] m) people [])"

definition findRoots :: "Person list \<Rightarrow> Person list" where
  "findRoots people = filter (\<lambda>p. length (parentIds p) = 0) people"

text \<open>
  One turn of the queue loop of \<open>calculateGenerations\<close> takes \<open>{ id, gen }\<close> from
  the queue. \<open>raise_generation\<close> is its first statement: the generation of \<open>id\<close> is
  set when it has none or a smaller one. \<open>children_to_push\<close> is its \<open>forEach\<close>: the
  children of \<open>id\<close> that have no generation or one below \<open>gen + 1\<close> are pushed with
  \<open>gen + 1\<close>.
\<close>

definition raise_generation :: "(string \<times> nat) list \<Rightarrow> string \<Rightarrow> nat \<Rightarrow> (string \<times> nat) list" where
  "raise_generation generations i gen =
     (case map_of generations i of
        None \<Rightarrow> AList.update i gen generations
      | Some g \<Rightarrow> if g < gen then AList.update i gen generations else generations)"

definition children_to_push ::
  "(string \<times> string list) list \<Rightarrow> (string \<times> nat) list \<Rightarrow> string \<Rightarrow> nat \<Rightarrow> (string \<times> nat) list" where
  "children_to_push childrenMap generations i gen =
     map (\<lambda>childId. (childId, gen + 1))
       (filter (\<lambda>childId.
                  case map_of generations childId of
                    None \<Rightarrow> True
                  | Some currentGen \<Rightarrow> currentGen < gen + 1)
          (case map_of childrenMap i of Some children \<Rightarrow> children | None \<Rightarrow> []))"

text \<open>
  The loop has no bound: on a parent cycle below a root it pushes for ever, so it is a
  partial function, and not returning is the value \<open>None\<close>.
\<close>

partial_function (option) generations_loop ::
  "(string \<times> string list) list \<Rightarrow> (string \<times> nat) list \<Rightarrow> (string \<times> nat) list
     \<Rightarrow> (string \<times> nat) list option" where
  "generations_loop childrenMap queue generations =
     (case queue of
        [] \<Rightarrow> Some generations
      | item # rest \<Rightarrow>
          generations_loop childrenMap
            (rest @ children_to_push childrenMap
                      (raise_generation generations (fst item) (snd item)) (fst item) (snd item))
            (raise_generation generations (fst item) (snd item)))"

declare generations_loop.simps [code]

text \<open>The last loop of \<open>calculateGenerations\<close>: a person without a generation gets 0.\<close>

definition handle_disconnected :: "Person list \<Rightarrow> (string \<times> nat) list \<Rightarrow> (string \<times> nat) list" where
  "handle_disconnected people generations =
     fold (\<lambda>p g. if map_of g (pid p) = None then AList.update (pid p) 0 g else g)
       people generations"

definition calculateGenerations :: "Person list \<Rightarrow> (string \<times> nat) list option" where
  "calculateGenerations people =
     (case generations_loop (buildChildrenMap people)
             (map (\<lambda>r. (pid r, 0)) (findRoots people)) [] of
        None \<Rightarrow> None
      | Some generations \<Rightarrow> Some (handle_disconnected people generations))"

text \<open>\<open>generations.get(id) || 0\<close>.\<close>

definition generation_or_0 :: "(string \<times> nat) list \<Rightarrow> string \<Rightarrow> nat" where
  "generation_or_0 generations i = (case map_of generations i of Some g \<Rightarrow> g | None \<Rightarrow> 0)"

definition groupByGeneration ::
  "Person list \<Rightarrow> (string \<times> nat) list \<Rightarrow> (nat \<times> Person list) list" where
  "groupByGeneration people generations =
     fold (\<lambda>person groups.
            let gen = generation_or_0 generations (pid person)
            in (case map_of groups gen of
                  None \<Rightarrow> AList.update gen [person] groups
                | Some members \<Rightarrow> AList.update gen (members @ [person]) groups))
       people []"

definition areSpouses :: "Person \<Rightarrow> Person \<Rightarrow> bool" where
  "areSpouses person1 person2 =
     (pid person2 \<in> set (spouseIds person1) \<or> pid person1 \<in> set (spouseIds person2))"

text \<open>
  The mutable state of \<open>computeLayout\<close> while it places persons: the store of
  \<open>Position\<close> objects (an address is an index into it, a new object is appended), the
  map \<open>nodePositions\<close> from ids to addresses, and the set \<open>positionedIds\<close>.
\<close>

record Placement =
  store :: "Position list"
  nodePositions :: "(string \<times> nat) list"
  positionedIds :: "string list"

text \<open>
  \<open>const pos = { x, y }; nodePositions.set(id, pos); positionedIds.add(id);\<close>
\<close>

definition place :: "Placement \<Rightarrow> string \<Rightarrow> rat \<Rightarrow> rat \<Rightarrow> Placement" where
  "place st i px py =
     \<lparr>store = store st @ [\<lparr>posX = px, posY = py\<rparr>],
      nodePositions = AList.update i (length (store st)) (nodePositions st),
      positionedIds = Set_add i (positionedIds st)\<rparr>"

definition place_if_new :: "Placement \<Rightarrow> string \<Rightarrow> rat \<Rightarrow> rat \<Rightarrow> Placement" where
  "place_if_new st i px py = (if i \<notin> set (positionedIds st) then place st i px py else st)"

subsection \<open>The bottom generation\<close>

definition parentKey :: "Person \<Rightarrow> string" where
  "parentKey p = join ''-'' (sort (parentIds p))"

text \<open>The pair \<open>(peopleByParents, orphans)\<close> after the grouping loop.\<close>

definition group_by_parents ::
  "Person list \<Rightarrow> (string \<times> Person list) list \<times> Person list" where
  "group_by_parents genPeople =
     fold (\<lambda>p acc.
            if length (parentIds p) = 0 then (fst acc, snd acc @ [p])
            else (case map_of (fst acc) (parentKey p) of
                    None \<Rightarrow> (AList.update (parentKey p) [p] (fst acc), snd acc)
                  | Some members \<Rightarrow> (AList.update (parentKey p) (members @ [p]) (fst acc), snd acc)))
       genPeople ([], [])"

definition all_groups :: "Person list \<Rightarrow> Person list list" where
  "all_groups genPeople =
     (let grouped = group_by_parents genPeople
      in map snd (fst grouped) @ (if length (snd grouped) > 0 then [snd grouped] else []))"

text \<open>
  The comparator of the sibling sort; \<open>localeCompare\<close> is the host's string collation
  and is a parameter of the model.
\<close>

definition sibling_compare :: "(string \<Rightarrow> string \<Rightarrow> int) \<Rightarrow> Person \<Rightarrow> Person \<Rightarrow> int" where
  "sibling_compare localeCompare a b =
     (if areSpouses a b then 0 else localeCompare (givenName a) (givenName b))"

text \<open>The state of the bottom row is the placement and \<open>currentX\<close>.\<close>

definition position_group ::
  "(string \<Rightarrow> string \<Rightarrow> int) \<Rightarrow> rat \<Rightarrow> Person list \<Rightarrow> Placement \<times> rat \<Rightarrow> Placement \<times> rat" where
  "position_group localeCompare py members acc =
     fold (\<lambda>p a.
            if pid p \<notin> set (positionedIds (fst a))
            then (place (fst a) (pid p) (snd a) py, snd a + CHILD_SPACING)
            else a)
       (sort_by (sibling_compare localeCompare) members) acc"

definition position_bottom ::
  "(string \<Rightarrow> string \<Rightarrow> int) \<Rightarrow> nat \<Rightarrow> Person list \<Rightarrow> Placement \<Rightarrow> Placement" where
  "position_bottom localeCompare gen genPeople st =
     (let py = CANVAS_PADDING + of_nat gen * VERTICAL_SPACING;
          allGroups = all_groups genPeople
      in fst (fold (\<lambda>g a.
                     let b = position_group localeCompare py (fst g) a
                     in if snd g < length allGroups - 1 then (fst b, snd b + UNIT_SPACING) else b)
                (zip allGroups [0..<length allGroups])
                (st, CANVAS_PADDING)))"

subsection \<open>The upper generations\<close>

definition pairKey :: "string \<Rightarrow> string \<Rightarrow> string" where
  "pairKey a b = join ''-'' (sort [a, b])"

definition spousesInGen ::
  "(string \<times> Person) list \<Rightarrow> (string \<times> nat) list \<Rightarrow> nat \<Rightarrow> Person \<Rightarrow> string list" where
  "spousesInGen peopleMap generations gen p =
     filter (\<lambda>spouseId. map_of peopleMap spouseId \<noteq> None \<and> map_of generations spouseId = Some gen)
       (spouseIds p)"

text \<open>
  Adding the couple of \<open>p\<close> and \<open>spouseId\<close> unless its key is processed. The state is
  the pair \<open>(processedPairs, units)\<close>. The spouse is in \<open>peopleMap\<close>, since
  \<open>spousesInGen\<close> kept its id.
\<close>

definition add_couple ::
  "(string \<times> Person) list \<Rightarrow> Person \<Rightarrow> string \<Rightarrow> string list \<times> Person list list
     \<Rightarrow> string list \<times> Person list list" where
  "add_couple peopleMap p spouseId acc =
     (if pairKey (pid p) spouseId \<notin> set (fst acc)
      then (case map_of peopleMap spouseId of
              Some spouse \<Rightarrow> (Set_add (pairKey (pid p) spouseId) (fst acc), snd acc @ [[p, spouse]])
            | None \<Rightarrow> acc)
      else acc)"

definition collect_units ::
  "(string \<times> Person) list \<Rightarrow> (string \<times> nat) list \<Rightarrow> nat \<Rightarrow> Person list \<Rightarrow> Person list list" where
  "collect_units peopleMap generations gen genPeople =
     snd (fold (\<lambda>p acc.
                 let inGen = spousesInGen peopleMap generations gen p
                 in if length inGen = 1 then add_couple peopleMap p (hd inGen) acc
                    else if length inGen = 0
                    then (if list_ex (\<lambda>key. str_includes key (pid p)) (fst acc) then acc
                          else (fst acc, snd acc @ [[p]]))
                    else acc)
            genPeople
            (fold (\<lambda>p acc.
                    let inGen = spousesInGen peopleMap generations gen p
                    in if length inGen > 1
                       then fold (\<lambda>spouseId acc'. add_couple peopleMap p spouseId acc') inGen acc
                       else acc)
               genPeople ([], [])))"

definition unitChildIds :: "(string \<times> string list) list \<Rightarrow> Person list \<Rightarrow> string list" where
  "unitChildIds childrenMap unit =
     fold (\<lambda>parent s.
            fold Set_add (case map_of childrenMap (pid parent) of Some cs \<Rightarrow> cs | None \<Rightarrow> []) s)
       unit []"

definition unit_centerX :: "(string \<times> string list) list \<Rightarrow> Placement \<Rightarrow> Person list \<Rightarrow> rat" where
  "unit_centerX childrenMap st unit =
     (let ids = unitChildIds childrenMap unit
      in if length ids > 0
         then (let childPositions = List.map_filter (\<lambda>cid. map_of (nodePositions st) cid) ids
               in if length childPositions > 0
                  then (Math_min (map (\<lambda>a. posX (store st ! a)) childPositions)
                        + Math_max (map (\<lambda>a. posX (store st ! a)) childPositions)) / 2
                  else CANVAS_PADDING + of_nat (length (positionedIds st)) * CHILD_SPACING)
         else (let existingX = map (\<lambda>e. posX (store st ! snd e)) (nodePositions st)
               in if length existingX > 0 then Math_max existingX + CHILD_SPACING
                  else CANVAS_PADDING))"

definition position_unit ::
  "(string \<times> string list) list \<Rightarrow> rat \<Rightarrow> Person list \<Rightarrow> Placement \<Rightarrow> Placement" where
  "position_unit childrenMap py unit st =
     (let centerX = unit_centerX childrenMap st unit
      in (case unit of
            [p1, p2] \<Rightarrow>
              place_if_new (place_if_new st (pid p1) (centerX - COUPLE_GAP / 2) py)
                (pid p2) (centerX + COUPLE_GAP / 2) py
          | p # ps \<Rightarrow> place_if_new st (pid p) centerX py
          | [] \<Rightarrow> st))"

definition position_upper ::
  "(string \<times> Person) list \<Rightarrow> (string \<times> string list) list \<Rightarrow> (string \<times> nat) list \<Rightarrow> nat
     \<Rightarrow> Person list \<Rightarrow> Placement \<Rightarrow> Placement" where
  "position_upper peopleMap childrenMap generations gen genPeople st =
     fold (position_unit childrenMap (CANVAS_PADDING + of_nat gen * VERTICAL_SPACING))
       (collect_units peopleMap generations gen genPeople) st"

subsection \<open>The layout\<close>

text \<open>
  A layout node is the person's fields (\<open>...person\<close>, so its \<open>position\<close> is the same
  reference), the address of its \<open>computedPosition\<close> and its generation.
\<close>

record LayoutNode =
  node_person :: Person
  computedPosition :: nat
  generation :: nat

text \<open>
  Creating the node of one person. The state is the store and the nodes so far. Without
  auto-align a person's own \<open>position\<close> object becomes the node's
  \<open>computedPosition\<close>: the same object, not a copy.
\<close>

definition create_node ::
  "bool \<Rightarrow> (string \<times> nat) list \<Rightarrow> (string \<times> nat) list \<Rightarrow> Person
     \<Rightarrow> Position list \<times> LayoutNode list \<Rightarrow> Position list \<times> LayoutNode list" where
  "create_node autoAlign generations np p acc =
     (let gen = generation_or_0 generations (pid p)
      in (case map_of np (pid p) of
            Some pos \<Rightarrow>
              (fst acc,
               snd acc @
               [\<lparr>node_person = p,
                 computedPosition =
                   (case position p of
                      Some own \<Rightarrow> if \<not> autoAlign then own else pos
                    | None \<Rightarrow> pos),
                 generation = gen\<rparr>])
          | None \<Rightarrow>
              (fst acc @ [\<lparr>posX = CANVAS_PADDING, posY = CANVAS_PADDING + of_nat gen * VERTICAL_SPACING\<rparr>],
               snd acc @
               [\<lparr>node_person = p,
                 computedPosition =
                   (case position p of
                      Some own \<Rightarrow> if \<not> autoAlign then own else length (fst acc)
                    | None \<Rightarrow> length (fst acc)),
                 generation = gen\<rparr>])))"

text \<open>\<open>node.computedPosition.x += shiftX\<close>, on the object in the store.\<close>

definition shift_node :: "rat \<Rightarrow> LayoutNode \<Rightarrow> Position list \<Rightarrow> Position list" where
  "shift_node shiftX n h =
     h[computedPosition n := (h ! computedPosition n)\<lparr>posX := posX (h ! computedPosition n) + shiftX\<rparr>]"

definition normalize :: "LayoutNode list \<Rightarrow> Position list \<Rightarrow> Position list" where
  "normalize ns h =
     (let minX = Math_min (map (\<lambda>n. posX (h ! computedPosition n)) ns)
      in if minX < CANVAS_PADDING then fold (shift_node (CANVAS_PADDING - minX)) ns h else h)"

record LayoutResult =
  nodes :: "LayoutNode list"
  width :: rat
  height :: rat

text \<open>
  \<open>computeLayout\<close>. It takes the store in which the persons' \<open>position\<close> objects live
  and returns the store after the call with the result, or \<open>None\<close> when
  \<open>calculateGenerations\<close> does not return. The source also collects \<open>familyUnits\<close>
  before it places anything; nothing reads them afterwards, and they are left out.
\<close>

definition computeLayout ::
  "(string \<Rightarrow> string \<Rightarrow> int) \<Rightarrow> Position list \<Rightarrow> Person list \<Rightarrow> bool
     \<Rightarrow> (Position list \<times> LayoutResult) option" where
  "computeLayout localeCompare h people autoAlign =
     (if length people = 0 then Some (h, \<lparr>nodes = [], width = 800, height = 600\<rparr>)
      else
        (case calculateGenerations people of
           None \<Rightarrow> None
         | Some generations \<Rightarrow>
             let generationGroups = groupByGeneration people generations;
                 maxGeneration = Math_max (map snd generations);
                 peopleMap = Map_from_entries (map (\<lambda>p. (pid p, p)) people);
                 childrenMap = buildChildrenMap people;
                 placed =
                   fold (\<lambda>gen st.
                          let genPeople = (case map_of generationGroups gen of
                                             Some ps \<Rightarrow> ps | None \<Rightarrow> [])
                          in if gen = maxGeneration
                             then position_bottom localeCompare gen genPeople st
                             else position_upper peopleMap childrenMap generations gen genPeople st)
                     (rev [0..<Suc maxGeneration])
                     \<lparr>store = h, nodePositions = [], positionedIds = []\<rparr>;
                 created = fold (create_node autoAlign generations (nodePositions placed))
                             people (store placed, []);
                 h' = normalize (snd created) (fst created);
                 maxX = Math_max (map (\<lambda>n. posX (h' ! computedPosition n)) (snd created) @ [800])
                          + CANVAS_PADDING;
                 maxY = Math_max (map (\<lambda>n. posY (h' ! computedPosition n)) (snd created) @ [600])
                          + CANVAS_PADDING
             in Some (h', \<lparr>nodes = snd created, width = maxX, height = maxY\<rparr>)))"

text \<open>
  \<open>computeAutoAlignPositions\<close>: the map from ids to the \<open>computedPosition\<close> objects of a
  forced layout.
\<close>

definition computeAutoAlignPositions ::
  "(string \<Rightarrow> string \<Rightarrow> int) \<Rightarrow> Position list \<Rightarrow> Person list
     \<Rightarrow> (Position list \<times> (string \<times> nat) list) option" where
  "computeAutoAlignPositions localeCompare h people =
     (case computeLayout localeCompare h people True of
        None \<Rightarrow> None
      | Some r \<Rightarrow>
          Some (fst r,
                fold (\<lambda>n m. AList.update (pid (node_person n)) (computedPosition n) m)
                  (nodes (snd r)) []))"


section \<open>Notions the properties are stated with\<close>

text \<open>
  Person \<open>a\<close> is a descendant of person \<open>b\<close> in \<open>G\<close>: a chain of persons of \<open>G\<close>,
  each listing the id of the next among its \<open>parentIds\<close>, leads from \<open>a\<close> up to \<open>b\<close>.
\<close>

inductive descendant_of :: "Person list \<Rightarrow> Person \<Rightarrow> Person \<Rightarrow> bool" for G where
  direct: "a \<in> set G \<Longrightarrow> pid b \<in> set (parentIds a) \<Longrightarrow> descendant_of G a b"
| step: "a \<in> set G \<Longrightarrow> m \<in> set G \<Longrightarrow> pid m \<in> set (parentIds a) \<Longrightarrow>
         descendant_of G m b \<Longrightarrow> descendant_of G a b"

text \<open>
  Id \<open>b\<close> is adjacent to id \<open>a\<close> when the person found under \<open>a\<close> lists \<open>b\<close> among its
  parents, children or spouses. A list of ids is linked when each id is adjacent to the one
  before it. Two ids are connected when a linked list leads from one to the other.
\<close>

definition adjacent :: "Person list \<Rightarrow> string \<Rightarrow> string \<Rightarrow> bool" where
  "adjacent people a b =
     (case find_person people a of
        None \<Rightarrow> False
      | Some p \<Rightarrow> b \<in> set (parentIds p) \<or> b \<in> set (childIds p) \<or> b \<in> set (spouseIds p))"

fun linked :: "Person list \<Rightarrow> string list \<Rightarrow> bool" where
  "linked people (a # b # rest) = (adjacent people a b \<and> linked people (b # rest))"
| "linked people [a] = True"
| "linked people [] = True"

inductive connected :: "Person list \<Rightarrow> string \<Rightarrow> string \<Rightarrow> bool" for people where
  conn_refl: "connected people a a"
| conn_step: "adjacent people a b \<Longrightarrow> connected people b c \<Longrightarrow> connected people a c"

definition good_path ::
  "Person list \<Rightarrow> string list \<Rightarrow> string \<Rightarrow> string \<Rightarrow> string list \<Rightarrow> bool" where
  "good_path people visited a b s =
     (s \<noteq> [] \<and> hd s = a \<and> last s = b \<and> distinct s \<and> set s \<inter> set visited = {}
      \<and> linked people s)"

text \<open>
  The fallback of the resolver in the words of the specification. A hop from \<open>a\<close> to
  \<open>b\<close> is a parent-hop when the person found under \<open>a\<close> lists \<open>b\<close> as a parent, else a
  child-hop when it lists \<open>b\<close> as a child; it is spousal when it lists \<open>b\<close> as a spouse.
  The signed generation difference adds \<open>-1\<close> for a parent-hop, \<open>+1\<close> for a child-hop
  and \<open>0\<close> for any other hop over the consecutive pairs of the path.
\<close>

definition parent_hop :: "Person list \<Rightarrow> string \<Rightarrow> string \<Rightarrow> bool" where
  "parent_hop people a b =
     (case find_person people a of None \<Rightarrow> False | Some p \<Rightarrow> b \<in> set (parentIds p))"

definition child_hop :: "Person list \<Rightarrow> string \<Rightarrow> string \<Rightarrow> bool" where
  "child_hop people a b =
     (case find_person people a of None \<Rightarrow> False | Some p \<Rightarrow> b \<in> set (childIds p))"

definition spouse_hop :: "Person list \<Rightarrow> string \<Rightarrow> string \<Rightarrow> bool" where
  "spouse_hop people a b =
     (case find_person people a of None \<Rightarrow> False | Some p \<Rightarrow> b \<in> set (spouseIds p))"

definition hop_value :: "Person list \<Rightarrow> string \<Rightarrow> string \<Rightarrow> int" where
  "hop_value people a b =
     (if parent_hop people a b then - 1 else if child_hop people a b then 1 else 0)"

definition signed_generation_difference :: "Person list \<Rightarrow> string list \<Rightarrow> int" where
  "signed_generation_difference people s =
     sum_list (map (\<lambda>h. hop_value people (fst h) (snd h)) (zip s (tl s)))"

definition traverses_spousal_edge :: "Person list \<Rightarrow> string list \<Rightarrow> bool" where
  "traverses_spousal_edge people s =
     list_ex (\<lambda>h. spouse_hop people (fst h) (snd h)) (zip s (tl s))"

definition spec_fallback :: "Person list \<Rightarrow> string list \<Rightarrow> string" where
  "spec_fallback people s =
     (let d = signed_generation_difference people s; N = nat \<bar>d\<bar>
      in if \<bar>d\<bar> > 2
         then (if d < 0 then ''Ancestor ('' @ string_of_nat N @ '' generations)''
               else ''Descendant ('' @ string_of_nat N @ '' generations)'')
         else if traverses_spousal_edge people s then ''Relative by marriage''
         else ''Relative'')"

text \<open>
  An id is reached from a root: it is the id of a person with no \<open>parentIds\<close> entry, or
  the id of a person one of whose \<open>parentIds\<close> entries is the id of a person of the list
  and is itself reached.
\<close>

inductive root_reachable :: "Person list \<Rightarrow> string \<Rightarrow> bool" for people where
  reach_root: "r \<in> set people \<Longrightarrow> parentIds r = [] \<Longrightarrow> root_reachable people (pid r)"
| reach_child: "root_reachable people q \<Longrightarrow> q \<in> pid ` set people \<Longrightarrow> p \<in> set people \<Longrightarrow>
                q \<in> set (parentIds p) \<Longrightarrow> root_reachable people (pid p)"

text \<open>
  The parent rule. The present parents of a person are the persons of the list whose id is
  among its \<open>parentIds\<close>. The rule gives a person whose id is reached from a root and
  who has a present parent one more than the largest generation among its present
  parents, and gives every other person 0.
\<close>

definition present_parents :: "Person list \<Rightarrow> Person \<Rightarrow> Person list" where
  "present_parents people p = filter (\<lambda>q. pid q \<in> set (parentIds p)) people"

definition parent_rule_generation :: "Person list \<Rightarrow> (string \<times> nat) list \<Rightarrow> Person \<Rightarrow> nat" where
  "parent_rule_generation people gens p =
     (if root_reachable people (pid p) \<and> present_parents people p \<noteq> []
      then Suc (Max (set (map (\<lambda>q. generation_or_0 gens (pid q)) (present_parents people p))))
      else 0)"

text \<open>
  The children map has an edge from \<open>q\<close> to \<open>c\<close> when \<open>c\<close> is in the list stored under
  \<open>q\<close>.
\<close>

definition child_edge :: "(string \<times> string list) list \<Rightarrow> string \<Rightarrow> string \<Rightarrow> bool" where
  "child_edge cm q c = (case map_of cm q of None \<Rightarrow> False | Some cs \<Rightarrow> c \<in> set cs)"

text \<open>
  The edges of the parent graph: from the id of a person to each of its \<open>parentIds\<close>
  entries. The graph has no directed cycle when this relation is acyclic.
\<close>

definition parent_relation :: "Person list \<Rightarrow> (string \<times> string) set" where
  "parent_relation people = {(pid p, q) |p q. p \<in> set people \<and> q \<in> set (parentIds p)}"

text \<open>
  The layout as it is read by a caller: for each node, the id, the x and the y of the
  object that its \<open>computedPosition\<close> refers to in the store after the call.
\<close>

definition layout_coordinates :: "Position list \<times> LayoutResult \<Rightarrow> (string \<times> rat \<times> rat) list" where
  "layout_coordinates r =
     map (\<lambda>n. (pid (node_person n),
                posX (fst r ! computedPosition n),
                posY (fst r ! computedPosition n)))
       (nodes (snd r))"

text \<open>
  A placement, or a store with nodes, is fresh over a store \<open>h\<close> when its store begins
  with \<open>h\<close> unchanged and every address it hands out lies beyond \<open>h\<close>.
\<close>

definition fresh_placement :: "Position list \<Rightarrow> Placement \<Rightarrow> bool" where
  "fresh_placement h st =
     (take (length h) (store st) = h \<and> length h \<le> length (store st)
      \<and> (\<forall>e\<in>set (nodePositions st). length h \<le> snd e))"

definition fresh_nodes :: "Position list \<Rightarrow> Position list \<times> LayoutNode list \<Rightarrow> bool" where
  "fresh_nodes h acc =
     (take (length h) (fst acc) = h \<and> length h \<le> length (fst acc)
      \<and> (\<forall>n\<in>set (snd acc). length h \<le> computedPosition n))"

text \<open>
  The body of the inner loop of \<open>buildChildrenMap\<close>, named for the proofs about the
  children map.
\<close>

definition add_child :: "Person \<Rightarrow> string \<Rightarrow> (string \<times> string list) list \<Rightarrow> (string \<times> string list) list" where
  "add_child person parentId m' =
     (case map_of m' parentId of
        Some children \<Rightarrow>
          if pid person \<notin> set children
          then AList.update parentId (children @ [pid person]) m'
          else m'
      | None \<Rightarrow> m')"


section \<open>Example families\<close>

text \<open>A chain of three: \<open>p1\<close> (male) is the parent of \<open>p2\<close>, who is the parent of \<open>p3\<close>.\<close>

definition ex_P1 :: Person where
  "ex_P1 = (createEmptyPerson ''p1'')\<lparr>gender := Male, childIds := [''p2'']\<rparr>"

definition ex_P2 :: Person where
  "ex_P2 = (createEmptyPerson ''p2'')\<lparr>parentIds := [''p1''], childIds := [''p3'']\<rparr>"

definition ex_P3 :: Person where
  "ex_P3 = (createEmptyPerson ''p3'')\<lparr>parentIds := [''p2'']\<rparr>"

text \<open>A chain of five, each the parent of the next.\<close>

definition ex_Q1 :: Person where
  "ex_Q1 = (createEmptyPerson ''q1'')\<lparr>childIds := [''q2'']\<rparr>"

definition ex_Q2 :: Person where
  "ex_Q2 = (createEmptyPerson ''q2'')\<lparr>parentIds := [''q1''], childIds := [''q3'']\<rparr>"

definition ex_Q3 :: Person where
  "ex_Q3 = (createEmptyPerson ''q3'')\<lparr>parentIds := [''q2''], childIds := [''q4'']\<rparr>"

definition ex_Q4 :: Person where
  "ex_Q4 = (createEmptyPerson ''q4'')\<lparr>parentIds := [''q3''], childIds := [''q5'']\<rparr>"

definition ex_Q5 :: Person where
  "ex_Q5 = (createEmptyPerson ''q5'')\<lparr>parentIds := [''q4'']\<rparr>"

definition ex_chain5 :: "Person list" where
  "ex_chain5 = [ex_Q1, ex_Q2, ex_Q3, ex_Q4, ex_Q5]"

text \<open>A string collation for the examples: the order of the character codes.\<close>

definition ex_localeCompare :: "string \<Rightarrow> string \<Rightarrow> int" where
  "ex_localeCompare a b = (if a < b then - 1 else if a = b then 0 else 1)"

text \<open>Two spouses without parents and children.\<close>

definition ex_S1 :: Person where
  "ex_S1 = (createEmptyPerson ''s1'')\<lparr>spouseIds := [''s2'']\<rparr>"

definition ex_S2 :: Person where
  "ex_S2 = (createEmptyPerson ''s2'')\<lparr>spouseIds := [''s1'']\<rparr>"

text \<open>
  A person \<open>a\<close> with two spouses \<open>b\<close> and \<open>c\<close>, all without parents; \<open>d\<close> is the
  child of \<open>a\<close> and \<open>b\<close>.
\<close>

definition ex_A :: Person where
  "ex_A = (createEmptyPerson ''a'')\<lparr>spouseIds := [''b'', ''c''], childIds := [''d'']\<rparr>"

definition ex_B :: Person where
  "ex_B = (createEmptyPerson ''b'')\<lparr>spouseIds := [''a''], childIds := [''d'']\<rparr>"

definition ex_C :: Person where
  "ex_C = (createEmptyPerson ''c'')\<lparr>spouseIds := [''a'']\<rparr>"

definition ex_D :: Person where
  "ex_D = (createEmptyPerson ''d'')\<lparr>parentIds := [''a'', ''b'']\<rparr>"

text \<open>One person whose manual position is the object at address 0 of the store.\<close>

definition ex_M :: Person where
  "ex_M = (createEmptyPerson ''m'')\<lparr>position := Some 0\<rparr>"

text \<open>
  A person \<open>g\<close> whose only parent entry names nobody of the list, and its child \<open>k\<close>.
\<close>

definition ex_G :: Person where
  "ex_G = (createEmptyPerson ''g'')\<lparr>parentIds := [''ghost''], childIds := [''k'']\<rparr>"

definition ex_K :: Person where
  "ex_K = (createEmptyPerson ''k'')\<lparr>parentIds := [''g'']\<rparr>"

text \<open>
  A root \<open>r\<close>, its child \<open>c\<close>, and the spouse \<open>w\<close> of \<open>c\<close>, who has no parents.
\<close>

definition ex_R :: Person where
  "ex_R = (createEmptyPerson ''r'')\<lparr>childIds := [''c'']\<rparr>"

definition ex_Rc :: Person where
  "ex_Rc = (createEmptyPerson ''c'')\<lparr>parentIds := [''r''], spouseIds := [''w'']\<rparr>"

definition ex_W :: Person where
  "ex_W = (createEmptyPerson ''w'')\<lparr>spouseIds := [''c'']\<rparr>"

text \<open>
  Two roots \<open>r1\<close> and \<open>r2\<close>; \<open>x\<close> is the child of \<open>r1\<close>, \<open>y\<close> the child of
  \<open>r2\<close>, and \<open>x\<close> and \<open>y\<close> are spouses.
\<close>

definition ex_R1 :: Person where
  "ex_R1 = (createEmptyPerson ''r1'')\<lparr>childIds := [''x'']\<rparr>"

definition ex_R2 :: Person where
  "ex_R2 = (createEmptyPerson ''r2'')\<lparr>childIds := [''y'']\<rparr>"

definition ex_X :: Person where
  "ex_X = (createEmptyPerson ''x'')\<lparr>parentIds := [''r1''], spouseIds := [''y'']\<rparr>"

definition ex_Y :: Person where
  "ex_Y = (createEmptyPerson ''y'')\<lparr>parentIds := [''r2''], spouseIds := [''x'']\<rparr>"


section \<open>Cycle guard: soundness\<close>

lemma map_of_fold_update:
  "map_of (fold (\<lambda>e m. AList.update (fst e) (snd e) m) es m0) = map_of m0 ++ map_of (rev es)"
  by (induction es arbitrary: m0) (auto simp: update_conv' map_add_def fun_eq_iff split: option.splits)

lemma map_of_Map_from_entries: "map_of (Map_from_entries es) = map_of (rev es)"
  by (simp add: Map_from_entries_def map_of_fold_update)

lemma peopleMap_lookup:
  assumes "distinct (map pid people)" "p \<in> set people"
  shows "map_of (Map_from_entries (map (\<lambda>p. (pid p, p)) people)) (pid p) = Some p"
proof -
  let ?es = "rev (map (\<lambda>p. (pid p, p)) people)"
  have "distinct (map fst ?es)"
    using assms(1) by (simp add: rev_map[symmetric] comp_def)
  moreover have "(pid p, p) \<in> set ?es"
    using assms(2) by auto
  ultimately have "map_of ?es (pid p) = Some p"
    by (simp only: map_of_eq_Some_iff)
  then show ?thesis by (simp add: map_of_Map_from_entries)
qed

lemma ancestor_loop_closed:
  assumes "\<not> ancestor_loop pm c q v"
    and "\<forall>x\<in>set v. x \<noteq> c \<and> (\<forall>p. map_of pm x = Some p \<longrightarrow> set (parentIds p) \<subseteq> set v \<union> set q)"
  shows "\<exists>V. set v \<union> set q \<subseteq> V \<and> c \<notin> V \<and> (\<forall>x\<in>V. \<forall>p. map_of pm x = Some p \<longrightarrow> set (parentIds p) \<subseteq> V)"
  using assms
proof (induction pm c q v rule: ancestor_loop.induct)
  case (1 pm c q v)
  show ?case
  proof (cases q)
    case Nil
    with 1(4) show ?thesis by (intro exI[of _ "set v"]) auto
  next
    case (Cons cur rest)
    show ?thesis
    proof (cases "cur \<in> set v")
      case True
      with Cons 1(3) have "\<not> ancestor_loop pm c rest v"
        by (simp add: ancestor_loop.simps[of pm c "cur # rest" v])
      moreover have "\<forall>x\<in>set v. x \<noteq> c \<and> (\<forall>p. map_of pm x = Some p \<longrightarrow> set (parentIds p) \<subseteq> set v \<union> set rest)"
        using 1(4) True Cons by auto
      ultimately obtain V where "set v \<union> set rest \<subseteq> V" "c \<notin> V"
         "\<forall>x\<in>V. \<forall>p. map_of pm x = Some p \<longrightarrow> set (parentIds p) \<subseteq> V"
        using 1(1)[OF Cons True] by blast
      with True Cons show ?thesis by (intro exI[of _ V]) auto
    next
      case False
      with Cons 1(3) have ne: "cur \<noteq> c"
        by (auto simp: ancestor_loop.simps[of pm c "cur # rest" v])
      let ?q = "rest @ (case map_of pm cur of Some person \<Rightarrow> parentIds person | None \<Rightarrow> [])"
      from False ne Cons 1(3) have "\<not> ancestor_loop pm c ?q (v @ [cur])"
        by (simp add: ancestor_loop.simps[of pm c "cur # rest" v])
      moreover have "\<forall>x\<in>set (v @ [cur]). x \<noteq> c \<and> (\<forall>p. map_of pm x = Some p \<longrightarrow> set (parentIds p) \<subseteq> set (v @ [cur]) \<union> set ?q)"
        using 1(4) ne Cons by auto
      ultimately obtain V where "set (v @ [cur]) \<union> set ?q \<subseteq> V" "c \<notin> V"
         "\<forall>x\<in>V. \<forall>p. map_of pm x = Some p \<longrightarrow> set (parentIds p) \<subseteq> V"
        using 1(2)[OF Cons False ne] by blast
      with Cons show ?thesis by (intro exI[of _ V]) auto
    qed
  qed
qed

lemma closed_contains_ancestors:
  assumes "descendant_of G a b" "distinct (map pid G)"
    and "\<forall>x\<in>V. \<forall>p. map_of (Map_from_entries (map (\<lambda>p. (pid p, p)) G)) x = Some p \<longrightarrow> set (parentIds p) \<subseteq> V"
    and "pid a \<in> V"
  shows "pid b \<in> V"
  using assms
proof (induction rule: descendant_of.induct)
  case (direct a b)
  then show ?case using peopleMap_lookup[of G a] by blast
next
  case (step a m b)
  then have "pid m \<in> V" using peopleMap_lookup[of G a] by blast
  with step show ?case by blast
qed

text \<open>
  Claim C3. For every people list \<open>G\<close> with unique ids and every person \<open>a\<close> that is a
  descendant of person \<open>b\<close> in \<open>G\<close>, \<open>wouldCreateCycle(G, b.id, a.id)\<close> is true;
  and \<open>wouldCreateCycle(G, x, x)\<close> is true for every id \<open>x\<close>. The answer comes from the
  second loop, the walk up the \<open>parentIds\<close>; the first loop never answers.
\<close>

theorem wouldCreateCycle_sound:
  "(distinct (map pid G) \<longrightarrow> descendant_of G a b \<longrightarrow> wouldCreateCycle G (pid b) (pid a))
   \<and> wouldCreateCycle G x x"
proof (intro conjI impI)
  show "wouldCreateCycle G x x" by (simp add: wouldCreateCycle_def)
next
  assume d: "distinct (map pid G)" and desc: "descendant_of G a b"
  let ?pm = "Map_from_entries (map (\<lambda>p. (pid p, p)) G)"
  have "ancestor_loop ?pm (pid b) [pid a] []"
  proof (rule ccontr)
    assume "\<not> ancestor_loop ?pm (pid b) [pid a] []"
    then obtain V where "pid a \<in> V" "pid b \<notin> V"
      "\<forall>x\<in>V. \<forall>p. map_of ?pm x = Some p \<longrightarrow> set (parentIds p) \<subseteq> V"
      using ancestor_loop_closed[of ?pm "pid b" "[pid a]" "[]"] by auto
    with closed_contains_ancestors[OF desc d] show False by blast
  qed
  then show "wouldCreateCycle G (pid b) (pid a)"
    by (simp add: wouldCreateCycle_def Let_def)
qed

theorem wouldCreateCycle_sound_witness:
  "distinct (map pid
     [createEmptyPerson ''p1'',
      (createEmptyPerson ''p2'')\<lparr>parentIds := [''p1'']\<rparr>,
      (createEmptyPerson ''p3'')\<lparr>parentIds := [''p2'']\<rparr>])
   \<and> descendant_of
     [createEmptyPerson ''p1'',
      (createEmptyPerson ''p2'')\<lparr>parentIds := [''p1'']\<rparr>,
      (createEmptyPerson ''p3'')\<lparr>parentIds := [''p2'']\<rparr>]
     ((createEmptyPerson ''p3'')\<lparr>parentIds := [''p2'']\<rparr>) (createEmptyPerson ''p1'')
   \<and> wouldCreateCycle
     [createEmptyPerson ''p1'',
      (createEmptyPerson ''p2'')\<lparr>parentIds := [''p1'']\<rparr>,
      (createEmptyPerson ''p3'')\<lparr>parentIds := [''p2'']\<rparr>] ''p1'' ''p3''
   \<and> wouldCreateCycle
     [createEmptyPerson ''p1'',
      (createEmptyPerson ''p2'')\<lparr>parentIds := [''p1'']\<rparr>,
      (createEmptyPerson ''p3'')\<lparr>parentIds := [''p2'']\<rparr>] ''p1'' ''p1''"
proof -
  let ?P1 = "createEmptyPerson ''p1''"
  let ?P2 = "(createEmptyPerson ''p2'')\<lparr>parentIds := [''p1'']\<rparr>"
  let ?P3 = "(createEmptyPerson ''p3'')\<lparr>parentIds := [''p2'']\<rparr>"
  let ?G = "[?P1, ?P2, ?P3]"
  have d: "distinct (map pid ?G)"
    by (simp add: createEmptyPerson_def)
  have "descendant_of ?G ?P2 ?P1"
    by (rule descendant_of.direct) (simp_all add: createEmptyPerson_def)
  then have desc: "descendant_of ?G ?P3 ?P1"
    by (rule descendant_of.step[rotated 3]) (simp_all add: createEmptyPerson_def)
  have p1: "pid ?P1 = ''p1''" and p3: "pid ?P3 = ''p3''"
    by (simp_all add: createEmptyPerson_def)
  from wouldCreateCycle_sound[of ?G ?P3 ?P1 "''p1''"] d desc
  have "wouldCreateCycle ?G (pid ?P1) (pid ?P3) \<and> wouldCreateCycle ?G ''p1'' ''p1''"
    by blast
  with d desc show ?thesis unfolding p1 p3 by blast
qed


section \<open>Relationship resolver: the path search\<close>

lemma find_person_pid: "find_person people i = Some p \<Longrightarrow> pid p = i"
  by (auto simp: find_person_def find_Some_iff)

lemma find_person_unique:
  assumes "p \<in> set people" "\<forall>q\<in>set people. pid q = pid p \<longrightarrow> q = p"
  shows "find_person people (pid p) = Some p"
proof (cases "find_person people (pid p)")
  case None
  with assms(1) show ?thesis by (auto simp: find_person_def find_None_iff)
next
  case (Some q)
  then have "q \<in> set people" "pid q = pid p"
    by (auto simp: find_person_def find_Some_iff)
  with assms(2) Some show ?thesis by auto
qed

lemma getGenerationDiff_loop_sum:
  "\<forall>x\<in>set s. find_person people x \<noteq> None \<Longrightarrow>
   getGenerationDiff_loop people s acc = acc + signed_generation_difference people s"
proof (induction people s acc rule: getGenerationDiff_loop.induct)
  case (1 people a b rest genDiff)
  from 1(6) obtain current nxt where c: "find_person people a = Some current"
    and n: "find_person people b = Some nxt" by auto
  have pn: "pid nxt = b" using n by (rule find_person_pid)
  have rest: "\<forall>x\<in>set (b # rest). find_person people x \<noteq> None" using 1(6) by simp
  have step: "signed_generation_difference people (a # b # rest) =
        hop_value people a b + signed_generation_difference people (b # rest)"
    by (simp add: signed_generation_difference_def)
  show ?case
  proof (cases "b \<in> set (parentIds current)")
    case True
    with 1(3)[OF c n _ rest] c n pn step show ?thesis
      by (simp add: hop_value_def parent_hop_def)
  next
    case np: False
    show ?thesis
    proof (cases "b \<in> set (childIds current)")
      case True
      with 1(4)[OF c n _ _ rest] np c n pn step show ?thesis
        by (simp add: hop_value_def parent_hop_def child_hop_def)
    next
      case False
      with 1(5)[OF c n _ _ rest] np c n pn step show ?thesis
        by (simp add: hop_value_def parent_hop_def child_hop_def)
    qed
  qed
qed (simp_all add: signed_generation_difference_def)

lemma goesThoughSpouse_traverses:
  "\<forall>x\<in>set s. find_person people x \<noteq> None \<Longrightarrow>
   goesThoughSpouse people s = traverses_spousal_edge people s"
proof (induction people s rule: goesThoughSpouse.induct)
  case (1 people a b rest)
  from 1(4) obtain current nxt where c: "find_person people a = Some current"
    and n: "find_person people b = Some nxt" by auto
  have pn: "pid nxt = b" using n by (rule find_person_pid)
  have rest: "\<forall>x\<in>set (b # rest). find_person people x \<noteq> None" using 1(4) by simp
  show ?case
  proof (cases "b \<in> set (spouseIds current)")
    case True
    with c n pn show ?thesis by (simp add: traverses_spousal_edge_def spouse_hop_def)
  next
    case False
    with 1(3)[OF c n _ rest] c n pn show ?thesis
      by (simp add: traverses_spousal_edge_def spouse_hop_def)
  qed
qed (simp_all add: traverses_spousal_edge_def)

lemma first_some_SomeD: "first_some f xs = Some r \<Longrightarrow> \<exists>x\<in>set xs. f x = Some r"
  by (induction xs) (auto split: option.splits)

lemma good_path_single: "b \<notin> set visited \<Longrightarrow> good_path people visited b b [b]"
  by (simp add: good_path_def)

lemma good_path_extend:
  assumes "good_path people (visited @ [a]) n b s" "adjacent people a n" "a \<notin> set visited"
  shows "good_path people visited a b (a # s)"
proof -
  from assms(1) obtain m rest where s: "s = m # rest" and m: "m = n"
    by (cases s) (auto simp: good_path_def)
  with assms show ?thesis
    by (auto simp: good_path_def)
qed

lemma findPath_good:
  "findPath people fromId toId visited pth = Some r \<Longrightarrow> toId \<notin> set visited \<Longrightarrow>
     \<exists>s. r = pth @ s \<and> good_path people visited fromId toId s"
  "findPath_each people ids toId visited pth = Some r \<Longrightarrow> toId \<notin> set visited \<Longrightarrow>
     \<exists>n s. n \<in> set ids \<and> r = pth @ s \<and> good_path people visited n toId s"
proof (induction people fromId toId visited pth and people ids toId visited pth
       arbitrary: r and r rule: findPath_findPath_each.induct)
  case (1 people fromId toId visited pth)
  show ?case
  proof (cases "fromId = toId")
    case True
    with 1(4,5) show ?thesis by (auto intro: good_path_single)
  next
    case False
    with 1(4) have nv: "fromId \<notin> set visited" by (auto split: if_splits)
    from False nv 1(4) obtain current where cur: "find_person people fromId = Some current"
      by (auto split: option.splits)
    have tv: "toId \<notin> set (visited @ [fromId])" using False 1(5) by auto
    have "\<exists>ids n s. n \<in> set ids \<and> ids \<in> {parentIds current, childIds current, spouseIds current}
            \<and> r = (pth @ [fromId]) @ s \<and> good_path people (visited @ [fromId]) n toId s"
    proof (cases "findPath_each people (parentIds current) toId (visited @ [fromId]) (pth @ [fromId])")
      case (Some r1)
      with 1(4) False nv cur have "r1 = r" by simp
      with 1(1)[OF False nv cur _ tv, of r] Some show ?thesis by blast
    next
      case None1: None
      show ?thesis
      proof (cases "findPath_each people (childIds current) toId (visited @ [fromId]) (pth @ [fromId])")
        case (Some r2)
        with 1(4) False nv cur None1 have "r2 = r" by simp
        with 1(2)[OF False nv cur None1 _ tv, of r] Some show ?thesis by blast
      next
        case None2: None
        with 1(4) False nv cur None1
        have "findPath_each people (spouseIds current) toId (visited @ [fromId]) (pth @ [fromId]) = Some r"
          by simp
        with 1(3)[OF False nv cur None1 None2 _ tv, of r] show ?thesis by blast
      qed
    qed
    then obtain ids n s where n: "n \<in> set ids"
      and ids: "ids \<in> {parentIds current, childIds current, spouseIds current}"
      and r: "r = (pth @ [fromId]) @ s" and g: "good_path people (visited @ [fromId]) n toId s"
      by blast
    from n ids cur have "adjacent people fromId n" by (auto simp: adjacent_def)
    from good_path_extend[OF g this nv] r show ?thesis by auto
  qed
next
  case (2 people toId visited pth)
  then show ?case by simp
next
  case (3 people nextId rest toId visited pth)
  show ?case
  proof (cases "findPath people nextId toId visited pth")
    case None
    with 3(3) have "findPath_each people rest toId visited pth = Some r" by simp
    from 3(2)[OF None this 3(4)] show ?thesis by auto
  next
    case (Some r1)
    with 3(3) have "r1 = r" by simp
    with 3(1)[OF _ 3(4), of r] Some show ?thesis by auto
  qed
qed

lemma linked_connected: "linked people s \<Longrightarrow> s \<noteq> [] \<Longrightarrow> connected people (hd s) (last s)"
proof (induction people s rule: linked.induct)
  case (1 people a b rest)
  then show ?case by (auto intro: conn_step)
qed (auto intro: conn_refl)

lemma linked_nth:
  "linked people s \<Longrightarrow> Suc i < length s \<Longrightarrow> adjacent people (s ! i) (s ! Suc i)"
proof (induction people s arbitrary: i rule: linked.induct)
  case (1 people a b rest)
  then show ?case by (cases i) auto
qed auto

lemma linked_present:
  "linked people s \<Longrightarrow> x \<in> set (butlast s) \<Longrightarrow> find_person people x \<noteq> None"
proof (induction people s rule: linked.induct)
  case (1 people a b rest)
  then show ?case by (auto simp: adjacent_def split: option.splits)
qed auto

text \<open>
  Claim C9. When the ids of the two persons are not connected by parent, child and spouse
  edges, \<open>findRelationship\<close> returns exactly the result with the label
  \<open>No direct relationship found\<close> and the empty path. The function is total: the search
  terminates on every input, and no branch of it fails.
\<close>

theorem findRelationship_disconnected:
  assumes "\<not> connected people (pid person1) (pid person2)"
  shows "findRelationship people person1 person2 =
           \<lparr>english = ''No direct relationship found'', result_path = []\<rparr>"
proof -
  from assms have ne: "pid person1 \<noteq> pid person2"
    by (auto intro: conn_refl)
  have "findPath people (pid person1) (pid person2) [] [] = None"
  proof (cases "findPath people (pid person1) (pid person2) [] []")
    case (Some r)
    from findPath_good(1)[OF Some] obtain s where "good_path people [] (pid person1) (pid person2) s"
      by auto
    then have "connected people (pid person1) (pid person2)"
      using linked_connected[of people s] by (auto simp: good_path_def)
    with assms show ?thesis by simp
  qed simp
  with ne show ?thesis by (simp add: findRelationship_def)
qed

theorem findRelationship_disconnected_witness:
  "\<not> connected
      [(createEmptyPerson ''p1'')\<lparr>childIds := [''p2'']\<rparr>,
       (createEmptyPerson ''p2'')\<lparr>parentIds := [''p1'']\<rparr>,
       createEmptyPerson ''p3''] ''p1'' ''p3''
   \<and> findRelationship
      [(createEmptyPerson ''p1'')\<lparr>childIds := [''p2'']\<rparr>,
       (createEmptyPerson ''p2'')\<lparr>parentIds := [''p1'']\<rparr>,
       createEmptyPerson ''p3'']
      ((createEmptyPerson ''p1'')\<lparr>childIds := [''p2'']\<rparr>) (createEmptyPerson ''p3'')
     = \<lparr>english = ''No direct relationship found'', result_path = []\<rparr>"
proof -
  let ?P1 = "(createEmptyPerson ''p1'')\<lparr>childIds := [''p2'']\<rparr>"
  let ?P2 = "(createEmptyPerson ''p2'')\<lparr>parentIds := [''p1'']\<rparr>"
  let ?P3 = "createEmptyPerson ''p3''"
  let ?G = "[?P1, ?P2, ?P3]"
  have adj: "\<And>a b. adjacent ?G a b \<Longrightarrow> a \<in> {''p1'', ''p2''} \<Longrightarrow> b \<in> {''p1'', ''p2''}"
    by (auto simp: adjacent_def find_person_def createEmptyPerson_def split: if_splits)
  have inv: "\<And>a c. connected ?G a c \<Longrightarrow> a \<in> {''p1'', ''p2''} \<Longrightarrow> c \<in> {''p1'', ''p2''}"
  proof -
    fix a c
    show "connected ?G a c \<Longrightarrow> a \<in> {''p1'', ''p2''} \<Longrightarrow> c \<in> {''p1'', ''p2''}"
      by (induction rule: connected.induct) (use adj in blast)+
  qed
  have nc: "\<not> connected ?G ''p1'' ''p3''"
    using inv[of "''p1''" "''p3''"] by auto
  have p1: "pid ?P1 = ''p1''" and p3: "pid ?P3 = ''p3''"
    by (simp_all add: createEmptyPerson_def)
  from nc have "\<not> connected ?G (pid ?P1) (pid ?P3)"
    unfolding p1 p3 .
  from findRelationship_disconnected[OF this] nc show ?thesis by blast
qed

text \<open>
  Claim C10. Whenever \<open>findRelationship(people, A, B)\<close> with different ids returns a
  non-empty path, the path starts with \<open>A.id\<close>, ends with \<open>B.id\<close>, repeats no id,
  every id but the last is found in \<open>people\<close>, and each id is adjacent to the one before
  it through the stored arrays of the person found under the earlier id.
\<close>

theorem findRelationship_path_simple:
  assumes "pid A \<noteq> pid B" and "result_path (findRelationship people A B) \<noteq> []"
  shows "hd (result_path (findRelationship people A B)) = pid A
       \<and> last (result_path (findRelationship people A B)) = pid B
       \<and> distinct (result_path (findRelationship people A B))
       \<and> (\<forall>x \<in> set (butlast (result_path (findRelationship people A B))). find_person people x \<noteq> None)
       \<and> (\<forall>i. Suc i < length (result_path (findRelationship people A B)) \<longrightarrow>
             adjacent people (result_path (findRelationship people A B) ! i)
                             (result_path (findRelationship people A B) ! Suc i))"
proof -
  let ?r = "result_path (findRelationship people A B)"
  from assms obtain found where f: "findPath people (pid A) (pid B) [] [] = Some found"
    by (auto simp: findRelationship_def split: option.splits)
  with assms(1) have r: "?r = found"
    by (simp add: findRelationship_def split: option.splits)
  from findPath_good(1)[OF f] have g: "good_path people [] (pid A) (pid B) found" by auto
  then show ?thesis unfolding r
    using linked_nth[of people found] linked_present[of people found]
    by (auto simp: good_path_def)
qed

theorem findRelationship_path_simple_witness:
  "pid ((createEmptyPerson ''p1'')\<lparr>childIds := [''p2'']\<rparr>)
     \<noteq> pid ((createEmptyPerson ''p3'')\<lparr>parentIds := [''p2'']\<rparr>)
   \<and> result_path (findRelationship
        [(createEmptyPerson ''p1'')\<lparr>childIds := [''p2'']\<rparr>,
         (createEmptyPerson ''p2'')\<lparr>parentIds := [''p1''], childIds := [''p3'']\<rparr>,
         (createEmptyPerson ''p3'')\<lparr>parentIds := [''p2'']\<rparr>]
        ((createEmptyPerson ''p1'')\<lparr>childIds := [''p2'']\<rparr>)
        ((createEmptyPerson ''p3'')\<lparr>parentIds := [''p2'']\<rparr>)) = [''p1'', ''p2'', ''p3'']
   \<and> distinct (result_path (findRelationship
        [(createEmptyPerson ''p1'')\<lparr>childIds := [''p2'']\<rparr>,
         (createEmptyPerson ''p2'')\<lparr>parentIds := [''p1''], childIds := [''p3'']\<rparr>,
         (createEmptyPerson ''p3'')\<lparr>parentIds := [''p2'']\<rparr>]
        ((createEmptyPerson ''p1'')\<lparr>childIds := [''p2'']\<rparr>)
        ((createEmptyPerson ''p3'')\<lparr>parentIds := [''p2'']\<rparr>)))"
proof -
  let ?P1 = "(createEmptyPerson ''p1'')\<lparr>childIds := [''p2'']\<rparr>"
  let ?P2 = "(createEmptyPerson ''p2'')\<lparr>parentIds := [''p1''], childIds := [''p3'']\<rparr>"
  let ?P3 = "(createEmptyPerson ''p3'')\<lparr>parentIds := [''p2'']\<rparr>"
  let ?G = "[?P1, ?P2, ?P3]"
  have ne: "pid ?P1 \<noteq> pid ?P3"
    by (simp add: createEmptyPerson_def)
  have r: "result_path (findRelationship ?G ?P1 ?P3) = [''p1'', ''p2'', ''p3'']"
    by (simp add: findRelationship_def createEmptyPerson_def find_person_def split: option.splits)
  then have "result_path (findRelationship ?G ?P1 ?P3) \<noteq> []"
    by simp
  from findRelationship_path_simple[OF ne this]
  have "distinct (result_path (findRelationship ?G ?P1 ?P3))"
    by blast
  with ne r show ?thesis by blast
qed


section \<open>Relationship resolver: the labels\<close>

lemma good_path_present:
  assumes "good_path people visited a b s" "find_person people b \<noteq> None"
  shows "\<forall>x\<in>set s. find_person people x \<noteq> None"
proof
  fix x assume x: "x \<in> set s"
  from assms(1) have ne: "s \<noteq> []" and l: "last s = b" and lk: "linked people s"
    by (auto simp: good_path_def)
  from ne have "s = butlast s @ [last s]" by simp
  with x have "x \<in> set (butlast s) \<or> x = last s"
    by (metis Un_iff empty_iff empty_set set_ConsD set_append)
  with l assms(2) linked_present[OF lk] show "find_person people x \<noteq> None" by auto
qed

text \<open>
  Claim C8. When \<open>findRelationship\<close> finds a path between two persons of the list with
  different ids and no named rule returns, the label is decided by the signed generation
  difference of the found path: beyond magnitude 2 it is \<open>Ancestor (N generations)\<close>
  (negative) or \<open>Descendant (N generations)\<close> (positive) with \<open>N\<close> the magnitude;
  otherwise \<open>Relative by marriage\<close> when a consecutive pair of the path is a spousal
  edge, and \<open>Relative\<close> when none is. The result carries the found path.
\<close>

theorem findRelationship_fallback:
  assumes "pid person1 \<noteq> pid person2"
    and "findPath people (pid person1) (pid person2) [] [] = Some found"
    and "named_rules people person1 person2 = None"
    and "person2 \<in> set people"
  shows "findRelationship people person1 person2 =
           \<lparr>english = spec_fallback people found, result_path = found\<rparr>"
proof -
  from assms(4) have p2: "find_person people (pid person2) \<noteq> None"
    by (auto simp: find_person_def find_None_iff)
  from findPath_good(1)[OF assms(2)]
  have g: "good_path people [] (pid person1) (pid person2) found" by auto
  have pres: "\<forall>x\<in>set found. find_person people x \<noteq> None"
    using good_path_present[OF g p2] .
  have gd: "getGenerationDiff people (pid person1) (pid person2) found
              = signed_generation_difference people found"
    using getGenerationDiff_loop_sum[OF pres, of 0] by (simp add: getGenerationDiff_def)
  have ts: "goesThoughSpouse people found = traverses_spousal_edge people found"
    using goesThoughSpouse_traverses[OF pres] .
  have "fallback_label people person1 person2 found = spec_fallback people found"
    unfolding fallback_label_def spec_fallback_def gd ts Let_def
    by (auto simp: abs_if)
  with assms(1,2,3) show ?thesis
    by (simp add: findRelationship_def)
qed

theorem findRelationship_fallback_witness:
  "pid ex_Q1 \<noteq> pid ex_Q5
   \<and> findPath ex_chain5 (pid ex_Q1) (pid ex_Q5) [] [] = Some [''q1'', ''q2'', ''q3'', ''q4'', ''q5'']
   \<and> named_rules ex_chain5 ex_Q1 ex_Q5 = None
   \<and> ex_Q5 \<in> set ex_chain5
   \<and> findRelationship ex_chain5 ex_Q1 ex_Q5 =
       \<lparr>english = ''Descendant (4 generations)'',
        result_path = [''q1'', ''q2'', ''q3'', ''q4'', ''q5'']\<rparr>"
proof -
  have ne: "pid ex_Q1 \<noteq> pid ex_Q5"
    by (simp add: ex_Q1_def ex_Q5_def createEmptyPerson_def)
  have pth: "findPath ex_chain5 (pid ex_Q1) (pid ex_Q5) [] [] = Some [''q1'', ''q2'', ''q3'', ''q4'', ''q5'']"
    by code_simp
  have nr: "named_rules ex_chain5 ex_Q1 ex_Q5 = None"
    by code_simp
  have mem: "ex_Q5 \<in> set ex_chain5"
    by (simp add: ex_chain5_def)
  have fb: "spec_fallback ex_chain5 [''q1'', ''q2'', ''q3'', ''q4'', ''q5''] = ''Descendant (4 generations)''"
    by code_simp
  from findRelationship_fallback[OF ne pth nr mem] fb ne pth nr mem show ?thesis
    by simp
qed

text \<open>
  Claim C2, as the code has it. \<open>findRelationship(people, A, B)\<close> names what \<open>B\<close> is to
  \<open>A\<close>. In a chain of three where \<open>P1\<close> is the parent of \<open>P2\<close> and \<open>P2\<close> the
  parent of \<open>P3\<close>, with symmetric \<open>parentIds\<close> and \<open>childIds\<close> and no other edge,
  \<open>findRelationship(people, P1, P3)\<close> returns the label \<open>Grandson\<close>,
  \<open>Granddaughter\<close> or \<open>Grandchild\<close> by the gender of \<open>P3\<close>, and the path
  \<open>[P1.id, P2.id, P3.id]\<close>.
\<close>

theorem grandchild_chain:
  assumes "set people = {P1, P2, P3}"
    and "distinct [pid P1, pid P2, pid P3]"
    and "parentIds P1 = []" "childIds P1 = [pid P2]" "spouseIds P1 = []"
    and "parentIds P2 = [pid P1]" "childIds P2 = [pid P3]" "spouseIds P2 = []"
    and "parentIds P3 = [pid P2]" "childIds P3 = []" "spouseIds P3 = []"
  shows "findRelationship people P1 P3 =
           \<lparr>english = by_gender (gender P3) ''Grandson'' ''Granddaughter'' ''Grandchild'',
            result_path = [pid P1, pid P2, pid P3]\<rparr>"
proof -
  have f1: "find_person people (pid P1) = Some P1"
    using assms(1,2) by (intro find_person_unique) auto
  have f2: "find_person people (pid P2) = Some P2"
    using assms(1,2) by (intro find_person_unique) auto
  have f3: "find_person people (pid P3) = Some P3"
    using assms(1,2) by (intro find_person_unique) auto
  have ne: "pid P1 \<noteq> pid P2" "pid P2 \<noteq> pid P3" "pid P1 \<noteq> pid P3"
    using assms(2) by auto
  have pth: "findPath people (pid P1) (pid P3) [] [] = Some [pid P1, pid P2, pid P3]"
    using ne f1 f2 f3 assms(3-11) by simp
  have nr: "named_rules people P1 P3
              = Some (by_gender (gender P3) ''Grandson'' ''Granddaughter'' ''Grandchild'')"
    using ne f1 f2 f3 assms(3-11)
    by (simp add: named_rules_def rule_spouse_def rule_parent_def rule_child_def rule_sibling_def
          rule_grandparent_def rule_grandchild_def)
  from ne pth nr show ?thesis
    by (simp add: findRelationship_def)
qed

theorem grandchild_chain_witness:
  "findRelationship [ex_P1, ex_P2, ex_P3] ex_P1 ex_P3 =
     \<lparr>english = ''Grandchild'', result_path = [''p1'', ''p2'', ''p3'']\<rparr>"
  using grandchild_chain[of "[ex_P1, ex_P2, ex_P3]" ex_P1 ex_P2 ex_P3]
  by (simp add: ex_P1_def ex_P2_def ex_P3_def createEmptyPerson_def by_gender_def)

text \<open>
  The label the specification expects for that chain (\<open>Grandfather\<close> for a male
  \<open>P1\<close>, or \<open>Grandparent\<close>, \<open>Grandmother\<close>) is not what is returned.
\<close>

theorem grandparent_label_counterexample:
  "english (findRelationship [ex_P1, ex_P2, ex_P3] ex_P1 ex_P3) = ''Grandchild''
   \<and> english (findRelationship [ex_P1, ex_P2, ex_P3] ex_P1 ex_P3) \<noteq> ''Grandfather''
   \<and> english (findRelationship [ex_P1, ex_P2, ex_P3] ex_P1 ex_P3) \<noteq> ''Grandparent''
   \<and> english (findRelationship [ex_P1, ex_P2, ex_P3] ex_P1 ex_P3) \<noteq> ''Grandmother''"
proof -
  have "english (findRelationship [ex_P1, ex_P2, ex_P3] ex_P1 ex_P3) = ''Grandchild''"
    by code_simp
  then show ?thesis by simp
qed


section \<open>Generation assignment\<close>

subsection \<open>The children map\<close>

lemma map_of_fold_init:
  "map_of (fold (\<lambda>person m. AList.update (pid person) [] m) people m0) q =
     (if q \<in> pid ` set people then Some [] else map_of m0 q)"
  by (induction people arbitrary: m0) (auto simp: update_conv')

lemma add_child_lookup:
  "map_of (add_child person parentId m) q =
     (case map_of m q of
        None \<Rightarrow> None
      | Some cs \<Rightarrow> if q = parentId \<and> pid person \<notin> set cs then Some (cs @ [pid person]) else Some cs)"
  by (auto simp: add_child_def update_conv' split: option.splits)

lemma fold_add_child_None:
  "map_of m q = None \<Longrightarrow> map_of (fold (add_child person) ps m) q = None"
  by (induction ps arbitrary: m) (auto simp: add_child_lookup)

lemma fold_add_child_Some:
  "map_of m q = Some cs \<Longrightarrow>
   \<exists>cs'. map_of (fold (add_child person) ps m) q = Some cs'
        \<and> set cs' = set cs \<union> (if q \<in> set ps then {pid person} else {})
        \<and> (distinct cs \<longrightarrow> distinct cs')"
proof (induction ps arbitrary: m cs)
  case Nil
  then show ?case by simp
next
  case (Cons a ps)
  let ?m = "add_child person a m"
  let ?cs = "if q = a \<and> pid person \<notin> set cs then cs @ [pid person] else cs"
  have "map_of ?m q = Some ?cs"
    using Cons.prems by (simp add: add_child_lookup)
  from Cons.IH[OF this] show ?case by (auto split: if_splits)
qed

lemma fold_people_None:
  "map_of m q = None \<Longrightarrow>
   map_of (fold (\<lambda>person m. fold (add_child person) (parentIds person) m) people m) q = None"
  by (induction people arbitrary: m) (auto simp: fold_add_child_None)

lemma fold_people_Some:
  "map_of m q = Some cs \<Longrightarrow>
   \<exists>cs'. map_of (fold (\<lambda>person m. fold (add_child person) (parentIds person) m) people m) q = Some cs'
        \<and> set cs' = set cs \<union> {pid p |p. p \<in> set people \<and> q \<in> set (parentIds p)}
        \<and> (distinct cs \<longrightarrow> distinct cs')"
proof (induction people arbitrary: m cs)
  case Nil
  then show ?case by simp
next
  case (Cons a people)
  from fold_add_child_Some[OF Cons.prems, of a "parentIds a"]
  obtain cs1 where 1: "map_of (fold (add_child a) (parentIds a) m) q = Some cs1"
    and 2: "set cs1 = set cs \<union> (if q \<in> set (parentIds a) then {pid a} else {})"
    and 3: "distinct cs \<longrightarrow> distinct cs1" by blast
  from Cons.IH[OF 1] obtain cs' where
    "map_of (fold (\<lambda>person m. fold (add_child person) (parentIds person) m) people
        (fold (add_child a) (parentIds a) m)) q = Some cs'"
    "set cs' = set cs1 \<union> {pid p |p. p \<in> set people \<and> q \<in> set (parentIds p)}"
    "distinct cs1 \<longrightarrow> distinct cs'" by blast
  with 2 3 show ?case by (auto split: if_splits)
qed

lemma buildChildrenMap_alt:
  "buildChildrenMap people =
     fold (\<lambda>person m. fold (add_child person) (parentIds person) m) people
       (fold (\<lambda>person m. AList.update (pid person) [] m) people [])"
  unfolding buildChildrenMap_def add_child_def by (rule refl)

lemma buildChildrenMap_None:
  "q \<notin> pid ` set people \<Longrightarrow> map_of (buildChildrenMap people) q = None"
  unfolding buildChildrenMap_alt by (rule fold_people_None) (simp add: map_of_fold_init)

lemma buildChildrenMap_Some:
  assumes "q \<in> pid ` set people"
  shows "\<exists>cs. map_of (buildChildrenMap people) q = Some cs
            \<and> set cs = {pid p |p. p \<in> set people \<and> q \<in> set (parentIds p)}
            \<and> distinct cs"
proof -
  have "map_of (fold (\<lambda>person m. AList.update (pid person) [] m) people []) q = Some []"
    using assms by (simp add: map_of_fold_init)
  from fold_people_Some[OF this, of people] show ?thesis
    unfolding buildChildrenMap_alt by auto
qed

lemma child_edge_buildChildrenMap:
  "child_edge (buildChildrenMap people) q c \<longleftrightarrow>
     q \<in> pid ` set people \<and> (\<exists>p\<in>set people. pid p = c \<and> q \<in> set (parentIds p))"
proof (cases "q \<in> pid ` set people")
  case True
  from buildChildrenMap_Some[OF True] show ?thesis
    using True by (auto simp: child_edge_def)
next
  case False
  then show ?thesis by (simp add: child_edge_def buildChildrenMap_None)
qed

subsection \<open>The queue loop\<close>

lemma raise_generation_lookup:
  "map_of (raise_generation gens i g) j =
     (if j = i then (case map_of gens i of None \<Rightarrow> Some g | Some g0 \<Rightarrow> Some (max g0 g))
      else map_of gens j)"
  by (auto simp: raise_generation_def update_conv' max_def split: option.splits)

lemma set_children_to_push:
  "set (children_to_push cm gens i g) =
     {(c, g + 1) |c. child_edge cm i c
                     \<and> (case map_of gens c of None \<Rightarrow> True | Some cg \<Rightarrow> cg < g + 1)}"
  by (auto simp: children_to_push_def child_edge_def split: option.splits)

lemma generations_loop_invariant:
  assumes "generations_loop cm queue gens = Some result"
    and "I queue gens"
    and "\<And>item rest gens. I (item # rest) gens \<Longrightarrow>
           I (rest @ children_to_push cm (raise_generation gens (fst item) (snd item)) (fst item) (snd item))
             (raise_generation gens (fst item) (snd item))"
  shows "I [] result"
proof -
  let ?P = "\<lambda>cm' q g res. cm' = cm \<longrightarrow> I q g \<longrightarrow> I [] res"
  have "?P cm queue gens result"
  proof (rule generations_loop.raw_induct[where P = ?P, OF _ assms(1)], goal_cases)
    case (1 loop cm' q g res)
    show ?case
    proof (cases q)
      case Nil
      with 1(2) show ?thesis by simp
    next
      case (Cons item rest)
      with 1(2) have "loop cm'
            (rest @ children_to_push cm' (raise_generation g (fst item) (snd item)) (fst item) (snd item))
            (raise_generation g (fst item) (snd item)) = Some res" by simp
      from 1(1)[OF this] assms(3)[of item rest g] Cons show ?thesis by auto
    qed
  qed
  with assms(2) show ?thesis by blast
qed

lemma handle_disconnected_lookup:
  "map_of (handle_disconnected people gens) i =
     (case map_of gens i of
        Some g \<Rightarrow> Some g
      | None \<Rightarrow> if i \<in> pid ` set people then Some 0 else None)"
  unfolding handle_disconnected_def
  by (induction people arbitrary: gens) (auto simp: update_conv' split: option.splits)

lemma loop_positive_has_parent:
  assumes "generations_loop cm (map (\<lambda>r. (pid r, 0)) roots) [] = Some res"
    and "map_of res i = Some g" "0 < g"
  shows "\<exists>q. child_edge cm q i"
proof -
  let ?I = "\<lambda>(queue :: (string \<times> nat) list) (gens :: (string \<times> nat) list).
      (\<forall>j k. (j, k) \<in> set queue \<and> 0 < k \<longrightarrow> (\<exists>q. child_edge cm q j))
    \<and> (\<forall>j k. map_of gens j = Some k \<and> 0 < k \<longrightarrow> (\<exists>q. child_edge cm q j))"
  have "?I [] res"
  proof (rule generations_loop_invariant[where I = ?I, OF assms(1)], goal_cases)
    case 1
    show ?case by auto
  next
    case (2 item rest gens)
    obtain i0 g0 where item: "item = (i0, g0)" by (cases item)
    show ?case
    proof (intro conjI allI impI)
      fix j k
      assume "(j, k) \<in> set (rest @ children_to_push cm (raise_generation gens (fst item) (snd item)) (fst item) (snd item)) \<and> 0 < k"
      then show "\<exists>q. child_edge cm q j"
        using 2 by (auto simp: set_children_to_push)
    next
      fix j k
      assume a: "map_of (raise_generation gens (fst item) (snd item)) j = Some k \<and> 0 < k"
      show "\<exists>q. child_edge cm q j"
      proof (cases "j = i0")
        case False
        with a item 2 show ?thesis by (auto simp: raise_generation_lookup)
      next
        case True
        show ?thesis
        proof (cases "map_of gens i0")
          case None
          with a item True have "k = g0" by (simp add: raise_generation_lookup)
          with a 2 item True show ?thesis by auto
        next
          case (Some g1)
          with a item True have "k = max g1 g0" by (simp add: raise_generation_lookup)
          with a have "0 < g1 \<or> 0 < g0" by auto
          with 2 item True Some show ?thesis by auto
        qed
      qed
    qed
  qed
  with assms(2,3) show ?thesis by blast
qed

lemma loop_monotone:
  assumes "generations_loop cm queue0 [] = Some res"
    and "child_edge cm q c" "map_of res q = Some g"
  shows "\<exists>g'. map_of res c = Some g' \<and> g < g'"
proof -
  let ?I = "\<lambda>(queue :: (string \<times> nat) list) (gens :: (string \<times> nat) list).
      \<forall>q c g. child_edge cm q c \<and> map_of gens q = Some g \<longrightarrow>
         (\<exists>g'. map_of gens c = Some g' \<and> g < g') \<or> (\<exists>g'. (c, g') \<in> set queue \<and> g < g')"
  have "?I [] res"
  proof (rule generations_loop_invariant[where I = ?I, OF assms(1)], goal_cases)
    case 1
    show ?case by simp
  next
    case (2 item rest gens)
    obtain i0 g0 where item: "item = (i0, g0)" by (cases item)
    let ?gens = "raise_generation gens i0 g0"
    let ?queue = "rest @ children_to_push cm ?gens i0 g0"
    have mono: "\<And>j k. map_of gens j = Some k \<Longrightarrow> \<exists>k'. map_of ?gens j = Some k' \<and> k \<le> k'"
      by (auto simp: raise_generation_lookup)
    have at_i0: "\<exists>k. map_of ?gens i0 = Some k \<and> g0 \<le> k"
      by (auto simp: raise_generation_lookup split: option.splits)
    have "?I ?queue ?gens"
    proof (intro allI impI)
      fix q c g
      assume a: "child_edge cm q c \<and> map_of ?gens q = Some g"
      show "(\<exists>g'. map_of ?gens c = Some g' \<and> g < g') \<or> (\<exists>g'. (c, g') \<in> set ?queue \<and> g < g')"
      proof (cases "q = i0 \<and> g = g0")
        case True
        show ?thesis
        proof (cases "map_of ?gens c")
          case None
          with a True have "(c, g0 + 1) \<in> set (children_to_push cm ?gens i0 g0)"
            by (auto simp: set_children_to_push)
          then show ?thesis using True by auto
        next
          case (Some cg)
          show ?thesis
          proof (cases "cg < g0 + 1")
            case True1: True
            with a True Some have "(c, g0 + 1) \<in> set (children_to_push cm ?gens i0 g0)"
              by (auto simp: set_children_to_push)
            then show ?thesis using True by auto
          next
            case False
            with Some True show ?thesis by auto
          qed
        qed
      next
        case False
        have old: "map_of gens q = Some g"
        proof (cases "q = i0")
          case neq: False
          with a show ?thesis by (simp add: raise_generation_lookup)
        next
          case True
          with False have "g \<noteq> g0" by simp
          with a True show ?thesis
            by (auto simp: raise_generation_lookup max_def split: option.splits if_splits)
        qed
        have stale: "q = i0 \<Longrightarrow> g0 < g"
          using a False by (auto simp: raise_generation_lookup max_def split: option.splits if_splits)
        from 2 a old have
          "(\<exists>g'. map_of gens c = Some g' \<and> g < g') \<or> (\<exists>g'. (c, g') \<in> set (item # rest) \<and> g < g')"
          by blast
        then show ?thesis
        proof (elim disjE exE conjE)
          fix g' assume "map_of gens c = Some g'" "g < g'"
          with mono[of c g'] show ?thesis by fastforce
        next
          fix g' assume m: "(c, g') \<in> set (item # rest)" and l: "g < g'"
          show ?thesis
          proof (cases "(c, g') = item")
            case True
            with item have "c = i0" "g' = g0" by auto
            with at_i0 l show ?thesis by fastforce
          next
            case False
            with m l show ?thesis by auto
          qed
        qed
      qed
    qed
    with item show ?case by simp
  qed
  with assms(2,3) show ?thesis by fastforce
qed

lemma loop_roots_reached:
  assumes "generations_loop cm queue0 [] = Some res" and "r \<in> fst ` set queue0"
  shows "map_of res r \<noteq> None"
proof -
  let ?I = "\<lambda>(queue :: (string \<times> nat) list) (gens :: (string \<times> nat) list). map_of gens r \<noteq> None \<or> r \<in> fst ` set queue"
  have "?I [] res"
  proof (rule generations_loop_invariant[where I = ?I, OF assms(1)], goal_cases)
    case 1
    with assms(2) show ?case by simp
  next
    case (2 item rest gens)
    then show ?case
      by (cases "fst item = r") (auto simp: raise_generation_lookup split: option.splits)
  qed
  then show ?thesis by simp
qed

subsection \<open>Termination and the assigned generations\<close>

lemma generations_loop_terminates:
  assumes "wf {(c, q). child_edge cm q c}"
  shows "\<exists>res. generations_loop cm queue gens = Some res"
proof -
  let ?r = "{(c, q). child_edge cm q c}"
  have "wf (inv_image (mult1 ?r) (\<lambda>queue :: (string \<times> nat) list. mset (map fst queue)))"
    using assms by (intro wf_inv_image wf_mult1)
  then show ?thesis
  proof (induction queue arbitrary: gens rule: wf_induct_rule)
    case (less queue)
    show ?case
    proof (cases queue)
      case Nil
      then show ?thesis by (simp add: generations_loop.simps)
    next
      case (Cons item rest)
      let ?gens = "raise_generation gens (fst item) (snd item)"
      let ?pushed = "children_to_push cm ?gens (fst item) (snd item)"
      have "\<forall>b. b \<in># mset (map fst ?pushed) \<longrightarrow> (b, fst item) \<in> ?r"
        by (auto simp: set_children_to_push)
      then have "(mset (map fst rest) + mset (map fst ?pushed), add_mset (fst item) (mset (map fst rest)))
                   \<in> mult1 ?r"
        unfolding mult1_def by blast
      then have "(rest @ ?pushed, queue) \<in> inv_image (mult1 ?r) (\<lambda>queue. mset (map fst queue))"
        using Cons by simp
      from less[OF this, of ?gens] obtain res where
        "generations_loop cm (rest @ ?pushed) ?gens = Some res" by blast
      with Cons show ?thesis by (simp add: generations_loop.simps[of cm "item # rest"])
    qed
  qed
qed

lemma finite_child_edges: "finite {(c, q). child_edge cm q c}"
proof -
  have "(c, q) \<in> (\<Union>(set ` snd ` set cm)) \<times> fst ` set cm" if e: "child_edge cm q c" for c q
  proof -
    from e obtain cs where m: "map_of cm q = Some cs" and c: "c \<in> set cs"
      by (auto simp: child_edge_def split: option.splits)
    from m have "(q, cs) \<in> set cm" by (rule map_of_SomeD)
    with c show ?thesis by force
  qed
  then have "{(c, q). child_edge cm q c} \<subseteq> (\<Union>(set ` snd ` set cm)) \<times> fst ` set cm"
    by blast
  moreover have "finite ((\<Union>(set ` snd ` set cm)) \<times> fst ` set cm)" by auto
  ultimately show ?thesis by (rule finite_subset)
qed

lemma calculateGenerations_terminates:
  assumes "acyclic (parent_relation people)"
  shows "calculateGenerations people \<noteq> None"
proof -
  let ?cm = "buildChildrenMap people"
  have "{(c, q). child_edge ?cm q c} \<subseteq> parent_relation people"
    by (auto simp: child_edge_buildChildrenMap parent_relation_def)
  with assms have "acyclic {(c, q). child_edge ?cm q c}"
    by (rule acyclic_subset)
  with finite_child_edges have "wf {(c, q). child_edge ?cm q c}"
    by (rule finite_acyclic_wf)
  from generations_loop_terminates[OF this] show ?thesis
    by (auto simp: calculateGenerations_def split: option.splits)
qed

lemma calculateGenerations_SomeD:
  assumes "calculateGenerations people = Some gens"
  obtains res where
    "generations_loop (buildChildrenMap people) (map (\<lambda>r. (pid r, 0)) (findRoots people)) [] = Some res"
    "gens = handle_disconnected people res"
  using assms by (auto simp: calculateGenerations_def split: option.splits)

lemma reached_in_loop:
  assumes "generations_loop (buildChildrenMap people) (map (\<lambda>r. (pid r, 0)) (findRoots people)) [] = Some res"
    and "root_reachable people i"
  shows "map_of res i \<noteq> None"
  using assms(2)
proof (induction rule: root_reachable.induct)
  case (reach_root r)
  then have "pid r \<in> fst ` set (map (\<lambda>r. (pid r, 0::nat)) (findRoots people))"
    by (force simp: findRoots_def)
  with loop_roots_reached[OF assms(1)] show ?case by blast
next
  case (reach_child q p)
  then obtain g where g: "map_of res q = Some g" by auto
  from reach_child have "child_edge (buildChildrenMap people) q (pid p)"
    by (auto simp: child_edge_buildChildrenMap)
  from loop_monotone[OF assms(1) this g] show ?case by auto
qed

lemma generation_parent_less:
  assumes "calculateGenerations people = Some gens"
    and "p \<in> set people" "q \<in> set people" "pid q \<in> set (parentIds p)"
    and "root_reachable people (pid q)"
  shows "generation_or_0 gens (pid q) < generation_or_0 gens (pid p)"
proof -
  from assms(1) obtain res where
    loop: "generations_loop (buildChildrenMap people) (map (\<lambda>r. (pid r, 0)) (findRoots people)) [] = Some res"
    and gens: "gens = handle_disconnected people res"
    by (rule calculateGenerations_SomeD)
  from reached_in_loop[OF loop assms(5)] obtain g where g: "map_of res (pid q) = Some g" by auto
  from assms(2-4) have "child_edge (buildChildrenMap people) (pid q) (pid p)"
    by (auto simp: child_edge_buildChildrenMap)
  from loop_monotone[OF loop this g] obtain g' where "map_of res (pid p) = Some g'" "g < g'" by blast
  with g gens show ?thesis
    by (simp add: generation_or_0_def handle_disconnected_lookup)
qed

lemma generation_no_parent_0:
  assumes "distinct (map pid people)" "calculateGenerations people = Some gens"
    and "p \<in> set people" "\<forall>q\<in>set people. pid q \<notin> set (parentIds p)"
  shows "map_of gens (pid p) = Some 0"
proof -
  from assms(2) obtain res where
    loop: "generations_loop (buildChildrenMap people) (map (\<lambda>r. (pid r, 0)) (findRoots people)) [] = Some res"
    and gens: "gens = handle_disconnected people res"
    by (rule calculateGenerations_SomeD)
  have no_edge: "\<not> child_edge (buildChildrenMap people) q (pid p)" for q
  proof
    assume "child_edge (buildChildrenMap people) q (pid p)"
    then obtain p' where q: "q \<in> pid ` set people" and p': "p' \<in> set people" "pid p' = pid p"
      "q \<in> set (parentIds p')"
      by (auto simp: child_edge_buildChildrenMap)
    from assms(1) p' assms(3) have "p' = p"
      by (meson distinct_map inj_onD)
    with q p' assms(4) show False by auto
  qed
  show ?thesis
  proof (cases "map_of res (pid p)")
    case None
    with gens assms(3) show ?thesis by (simp add: handle_disconnected_lookup)
  next
    case (Some g)
    have "g = 0"
    proof (rule ccontr)
      assume "g \<noteq> 0"
      then have "0 < g" by simp
      from loop_positive_has_parent[OF loop Some this] no_edge show False by blast
    qed
    with Some gens show ?thesis by (simp add: handle_disconnected_lookup)
  qed
qed

text \<open>
  When every \<open>parentIds\<close> entry names a person of the list and the parent graph has no
  directed cycle, every person's id is reached from a root.
\<close>

lemma finite_parent_relation: "finite (parent_relation people)"
proof -
  have "parent_relation people \<subseteq> pid ` set people \<times> \<Union>(set ` parentIds ` set people)"
    by (auto simp: parent_relation_def)
  moreover have "finite (pid ` set people \<times> \<Union>(set ` parentIds ` set people))"
    by auto
  ultimately show ?thesis by (rule finite_subset)
qed

lemma root_reachable_when_closed:
  assumes "acyclic (parent_relation people)"
    and "\<forall>p\<in>set people. set (parentIds p) \<subseteq> pid ` set people"
    and "p \<in> set people"
  shows "root_reachable people (pid p)"
proof -
  have wf: "wf ((parent_relation people)\<inverse>)"
    using finite_parent_relation assms(1) by (rule finite_acyclic_wf_converse)
  have "\<forall>p\<in>set people. pid p = i \<longrightarrow> root_reachable people i" for i
    using wf
  proof (induction i rule: wf_induct_rule)
    case (less i)
    show ?case
    proof (intro ballI impI)
      fix p assume p: "p \<in> set people" and i: "pid p = i"
      show "root_reachable people i"
      proof (cases "parentIds p")
        case Nil
        with p i show ?thesis by (auto intro: reach_root)
      next
        case (Cons q qs)
        with p i have e: "(i, q) \<in> parent_relation people"
          by (auto simp: parent_relation_def)
        from Cons p assms(2) obtain p' where p': "p' \<in> set people" "pid p' = q"
          by force
        from e have "(q, i) \<in> (parent_relation people)\<inverse>" by simp
        from less[OF this] p' have "root_reachable people q" by blast
        from reach_child[OF this _ p, of ] p' Cons i show ?thesis by auto
      qed
    qed
  qed
  with assms(3) show ?thesis by blast
qed

text \<open>
  So on a people list without a parent cycle in which every \<open>parentIds\<close> entry names a
  person of the list, the assignment returns and every person lies strictly below each of
  its parents.
\<close>

lemma generation_monotonicity_closed_acyclic:
  assumes "acyclic (parent_relation people)"
    and "\<forall>p\<in>set people. set (parentIds p) \<subseteq> pid ` set people"
  shows "\<exists>gens. calculateGenerations people = Some gens
           \<and> (\<forall>p\<in>set people. \<forall>q\<in>set people. pid q \<in> set (parentIds p) \<longrightarrow>
                  generation_or_0 gens (pid q) < generation_or_0 gens (pid p))"
proof -
  from calculateGenerations_terminates[OF assms(1)] obtain gens where
    g: "calculateGenerations people = Some gens" by auto
  have "generation_or_0 gens (pid q) < generation_or_0 gens (pid p)"
    if "p \<in> set people" "q \<in> set people" "pid q \<in> set (parentIds p)" for p q
    using generation_parent_less[OF g that] root_reachable_when_closed[OF assms that(2)] .
  with g show ?thesis by blast
qed

text \<open>
  Claim C5, as the code has it. For a people list with unique ids,
  \<open>calculateGenerations\<close> returns whenever the parent graph has no directed cycle, and
  whenever it returns: for every person \<open>p\<close> with a parent \<open>q\<close> in the list whose id
  is reached from a root (a person with empty \<open>parentIds\<close>), the generation of \<open>p\<close>
  is strictly greater than that of \<open>q\<close>; and every person with no parent in the list has
  generation 0.
\<close>

theorem generations_monotone:
  assumes "distinct (map pid people)"
  shows "(acyclic (parent_relation people) \<longrightarrow> calculateGenerations people \<noteq> None)
       \<and> (\<forall>gens. calculateGenerations people = Some gens \<longrightarrow>
            (\<forall>p q. p \<in> set people \<and> q \<in> set people \<and> pid q \<in> set (parentIds p)
                   \<and> root_reachable people (pid q)
                 \<longrightarrow> generation_or_0 gens (pid q) < generation_or_0 gens (pid p))
          \<and> (\<forall>p. p \<in> set people \<and> (\<forall>q\<in>set people. pid q \<notin> set (parentIds p))
                 \<longrightarrow> map_of gens (pid p) = Some 0))"
  using assms calculateGenerations_terminates generation_parent_less generation_no_parent_0
  by blast

theorem generations_monotone_witness:
  "distinct (map pid [ex_P1, ex_P2, ex_P3])
   \<and> acyclic (parent_relation [ex_P1, ex_P2, ex_P3])
   \<and> calculateGenerations [ex_P1, ex_P2, ex_P3] = Some [(''p1'', 0), (''p2'', 1), (''p3'', 2)]
   \<and> root_reachable [ex_P1, ex_P2, ex_P3] (pid ex_P1)
   \<and> generation_or_0 [(''p1'', 0), (''p2'', 1), (''p3'', 2)] (pid ex_P1)
       < generation_or_0 [(''p1'', 0), (''p2'', 1), (''p3'', 2)] (pid ex_P2)
   \<and> map_of [(''p1'', 0), (''p2'', 1), (''p3'', 2)] (pid ex_P1) = Some (0::nat)"
proof -
  let ?G = "[ex_P1, ex_P2, ex_P3]"
  have d: "distinct (map pid ?G)"
    by (simp add: ex_P1_def ex_P2_def ex_P3_def createEmptyPerson_def)
  have ac: "acyclic (parent_relation ?G)"
    by (rule acyclicI_order[where f = "\<lambda>s. if s = ''p1'' then 0 else if s = ''p2'' then 1 else (2::nat)"])
       (auto simp: parent_relation_def ex_P1_def ex_P2_def ex_P3_def createEmptyPerson_def)
  have g: "calculateGenerations ?G = Some [(''p1'', 0), (''p2'', 1), (''p3'', 2)]"
    by code_simp
  have r: "root_reachable ?G (pid ex_P1)"
    by (rule reach_root) (simp_all add: ex_P1_def createEmptyPerson_def)
  have e: "ex_P2 \<in> set ?G \<and> ex_P1 \<in> set ?G \<and> pid ex_P1 \<in> set (parentIds ex_P2)"
    by (simp add: ex_P1_def ex_P2_def createEmptyPerson_def)
  have n: "ex_P1 \<in> set ?G \<and> (\<forall>q\<in>set ?G. pid q \<notin> set (parentIds ex_P1))"
    by (simp add: ex_P1_def createEmptyPerson_def)
  note t = generations_monotone[OF d]
  from t ac have "calculateGenerations ?G \<noteq> None"
    by blast
  moreover from t g e r
  have "generation_or_0 [(''p1'', 0), (''p2'', 1), (''p3'', 2)] (pid ex_P1)
          < generation_or_0 [(''p1'', 0), (''p2'', 1), (''p3'', 2)] (pid ex_P2)"
    by blast
  moreover from t g n
  have "map_of [(''p1'', 0), (''p2'', 1), (''p3'', 2)] (pid ex_P1) = Some (0::nat)"
    by blast
  ultimately show ?thesis using d ac g r by blast
qed

text \<open>
  The claim fails below a person that is no root and has no parent in the list: \<open>g\<close>
  lists only an id that names nobody, so it is never put on the queue, and its child \<open>k\<close>
  stays at generation 0 beside it.
\<close>

theorem generation_monotonicity_counterexample:
  "ex_K \<in> set [ex_G, ex_K] \<and> ex_G \<in> set [ex_G, ex_K]
   \<and> pid ex_G \<in> set (parentIds ex_K)
   \<and> calculateGenerations [ex_G, ex_K] = Some [(''g'', 0), (''k'', 0)]
   \<and> \<not> generation_or_0 [(''g'', 0), (''k'', 0)] (pid ex_G)
         < generation_or_0 [(''g'', 0), (''k'', 0)] (pid ex_K)"
proof -
  have "calculateGenerations [ex_G, ex_K] = Some [(''g'', 0), (''k'', 0)]"
    by code_simp
  then show ?thesis
    by (simp add: ex_G_def ex_K_def createEmptyPerson_def generation_or_0_def)
qed

subsection \<open>Spouse entries are not read\<close>

lemma buildChildrenMap_spouseIds:
  "buildChildrenMap (map (\<lambda>r. r\<lparr>spouseIds := f r\<rparr>) people) = buildChildrenMap people"
  by (simp add: buildChildrenMap_def fold_map comp_def cong: option.case_cong if_cong)

lemma findRoots_spouseIds:
  "map (\<lambda>r. (pid r, 0::nat)) (findRoots (map (\<lambda>r. r\<lparr>spouseIds := f r\<rparr>) people))
     = map (\<lambda>r. (pid r, 0)) (findRoots people)"
  by (simp add: findRoots_def filter_map comp_def)

lemma handle_disconnected_spouseIds:
  "handle_disconnected (map (\<lambda>r. r\<lparr>spouseIds := f r\<rparr>) people) gens = handle_disconnected people gens"
  by (simp add: handle_disconnected_def fold_map comp_def cong: if_cong)

lemma calculateGenerations_spouseIds:
  "calculateGenerations (map (\<lambda>r. r\<lparr>spouseIds := f r\<rparr>) people) = calculateGenerations people"
  by (simp add: calculateGenerations_def buildChildrenMap_spouseIds findRoots_spouseIds
        handle_disconnected_spouseIds cong: option.case_cong)

subsection \<open>Only ids reached from a root pass through the queue\<close>

lemma loop_only_reachable:
  assumes "generations_loop (buildChildrenMap people) (map (\<lambda>r. (pid r, 0)) (findRoots people)) [] = Some res"
    and "map_of res i = Some g"
  shows "root_reachable people i"
proof -
  let ?cm = "buildChildrenMap people"
  let ?I = "\<lambda>(queue :: (string \<times> nat) list) (gens :: (string \<times> nat) list).
      (\<forall>j k. (j, k) \<in> set queue \<longrightarrow> root_reachable people j)
    \<and> (\<forall>j k. map_of gens j = Some k \<longrightarrow> root_reachable people j)"
  have "?I [] res"
  proof (rule generations_loop_invariant[where I = ?I, OF assms(1)], goal_cases)
    case 1
    show ?case by (auto simp: findRoots_def intro: reach_root)
  next
    case (2 item rest gens)
    obtain i0 g0 where item: "item = (i0, g0)" by (cases item)
    from 2 item have r0: "root_reachable people i0" by auto
    have child: "root_reachable people c" if "child_edge ?cm i0 c" for c
    proof -
      from that obtain p where "i0 \<in> pid ` set people" "p \<in> set people" "pid p = c"
        "i0 \<in> set (parentIds p)"
        by (auto simp: child_edge_buildChildrenMap)
      with reach_child[OF r0, of p] show ?thesis by auto
    qed
    show ?case
    proof (intro conjI allI impI)
      fix j k
      assume "(j, k) \<in> set (rest @ children_to_push ?cm (raise_generation gens (fst item) (snd item)) (fst item) (snd item))"
      then show "root_reachable people j"
        using 2 item child by (auto simp: set_children_to_push)
    next
      fix j k
      assume "map_of (raise_generation gens (fst item) (snd item)) j = Some k"
      then show "root_reachable people j"
        using 2 item r0 by (cases "j = i0") (auto simp: raise_generation_lookup)
    qed
  qed
  with assms(2) show ?thesis by blast
qed

subsection \<open>A generation above 0 comes from a parent one below\<close>

lemma loop_positive_from_parent:
  assumes "generations_loop cm (map (\<lambda>r. (pid r, 0)) roots) [] = Some res"
    and "map_of res i = Some g" "0 < g"
  shows "\<exists>q gq. child_edge cm q i \<and> map_of res q = Some gq \<and> g \<le> gq + 1"
proof -
  let ?I = "\<lambda>(queue :: (string \<times> nat) list) (gens :: (string \<times> nat) list).
      (\<forall>j k. (j, k) \<in> set queue \<and> 0 < k \<longrightarrow>
          (\<exists>q gq. child_edge cm q j \<and> map_of gens q = Some gq \<and> k \<le> gq + 1))
    \<and> (\<forall>j k. map_of gens j = Some k \<and> 0 < k \<longrightarrow>
          (\<exists>q gq. child_edge cm q j \<and> map_of gens q = Some gq \<and> k \<le> gq + 1))"
  have "?I [] res"
  proof (rule generations_loop_invariant[where I = ?I, OF assms(1)], goal_cases)
    case 1
    show ?case by auto
  next
    case (2 item rest gens)
    obtain i0 g0 where item: "item = (i0, g0)" by (cases item)
    let ?gens = "raise_generation gens i0 g0"
    have mono: "\<And>j k. map_of gens j = Some k \<Longrightarrow> \<exists>k'. map_of ?gens j = Some k' \<and> k \<le> k'"
      by (auto simp: raise_generation_lookup)
    have at_i0: "\<exists>k. map_of ?gens i0 = Some k \<and> g0 \<le> k"
      by (auto simp: raise_generation_lookup split: option.splits)
    have keep: "\<exists>q gq. child_edge cm q j \<and> map_of ?gens q = Some gq \<and> k \<le> gq + 1"
      if "\<exists>q gq. child_edge cm q j \<and> map_of gens q = Some gq \<and> k \<le> gq + 1" for j k
    proof -
      from that obtain q gq where "child_edge cm q j" "map_of gens q = Some gq" "k \<le> gq + 1"
        by blast
      with mono[of q gq] show ?thesis by fastforce
    qed
    have "?I (rest @ children_to_push cm ?gens i0 g0) ?gens"
    proof (intro conjI allI impI)
      fix j k
      assume a: "(j, k) \<in> set (rest @ children_to_push cm ?gens i0 g0) \<and> 0 < k"
      show "\<exists>q gq. child_edge cm q j \<and> map_of ?gens q = Some gq \<and> k \<le> gq + 1"
      proof (cases "(j, k) \<in> set rest")
        case True
        with a 2 have "\<exists>q gq. child_edge cm q j \<and> map_of gens q = Some gq \<and> k \<le> gq + 1"
          by auto
        then show ?thesis by (rule keep)
      next
        case False
        with a have "child_edge cm i0 j" "k = g0 + 1"
          by (auto simp: set_children_to_push)
        with at_i0 show ?thesis by fastforce
      qed
    next
      fix j k
      assume a: "map_of ?gens j = Some k \<and> 0 < k"
      show "\<exists>q gq. child_edge cm q j \<and> map_of ?gens q = Some gq \<and> k \<le> gq + 1"
      proof (cases "map_of gens j = Some k")
        case True
        with a 2 have "\<exists>q gq. child_edge cm q j \<and> map_of gens q = Some gq \<and> k \<le> gq + 1"
          by blast
        then show ?thesis by (rule keep)
      next
        case False
        with a have "j = i0" "k = g0"
          by (auto simp: raise_generation_lookup max_def split: if_splits option.splits)
        with a 2 item have "\<exists>q gq. child_edge cm q j \<and> map_of gens q = Some gq \<and> k \<le> gq + 1"
          by auto
        then show ?thesis by (rule keep)
      qed
    qed
    with item show ?case by simp
  qed
  with assms(2,3) show ?thesis by blast
qed

subsection \<open>The parent rule\<close>

lemma generation_by_parent_rule:
  assumes d: "distinct (map pid people)" and c: "calculateGenerations people = Some gens"
    and p: "p \<in> set people"
  shows "generation_or_0 gens (pid p) = parent_rule_generation people gens p"
proof -
  let ?cm = "buildChildrenMap people"
  from c obtain res where
    loop: "generations_loop ?cm (map (\<lambda>r. (pid r, 0)) (findRoots people)) [] = Some res"
    and gens: "gens = handle_disconnected people res"
    by (rule calculateGenerations_SomeD)
  have same: "p' = p" if "p' \<in> set people" "pid p' = pid p" for p'
    using d that p by (meson distinct_map inj_onD)
  have gen_of: "generation_or_0 gens i = (case map_of res i of Some g \<Rightarrow> g | None \<Rightarrow> 0)" for i
    by (auto simp: gens generation_or_0_def handle_disconnected_lookup split: option.splits)
  show ?thesis
  proof (cases "root_reachable people (pid p)")
    case False
    then have "map_of res (pid p) = None"
      using loop_only_reachable[OF loop] by (cases "map_of res (pid p)") auto
    with False show ?thesis by (simp add: gen_of parent_rule_generation_def)
  next
    case reach: True
    show ?thesis
    proof (cases "present_parents people p = []")
      case True
      then have "\<forall>q\<in>set people. pid q \<notin> set (parentIds p)"
        by (auto simp: present_parents_def filter_empty_conv)
      from generation_no_parent_0[OF d c p this] True show ?thesis
        by (simp add: generation_or_0_def parent_rule_generation_def)
    next
      case False
      let ?vals = "map (\<lambda>q. generation_or_0 gens (pid q)) (present_parents people p)"
      from reached_in_loop[OF loop reach] obtain g where g: "map_of res (pid p) = Some g" by auto
      have edge: "child_edge ?cm (pid Q) (pid p)" if "Q \<in> set (present_parents people p)" for Q
        using that p by (auto simp: child_edge_buildChildrenMap present_parents_def)
      have below: "generation_or_0 gens (pid Q) < g" if Q: "Q \<in> set (present_parents people p)"
        and r: "map_of res (pid Q) \<noteq> None" for Q
      proof -
        from r obtain gQ where gQ: "map_of res (pid Q) = Some gQ" by auto
        from loop_monotone[OF loop edge[OF Q] gQ] g gQ show ?thesis by (simp add: gen_of)
      qed
      have pos: "0 < g"
      proof -
        from reach show ?thesis
        proof (cases rule: root_reachable.cases)
          case (reach_root r)
          with same[of r] False show ?thesis
            by (auto simp: present_parents_def)
        next
          case (reach_child q p')
          with same[of p'] have qp: "q \<in> set (parentIds p)" by auto
          from reach_child obtain Q where Q: "Q \<in> set people" "pid Q = q" by auto
          with qp have Qp: "Q \<in> set (present_parents people p)" by (simp add: present_parents_def)
          from reached_in_loop[OF loop reach_child(2)] Q have "map_of res (pid Q) \<noteq> None" by simp
          from below[OF Qp this] show ?thesis by simp
        qed
      qed
      from loop_positive_from_parent[OF loop g pos] obtain q1 gq1 where
        e1: "child_edge ?cm q1 (pid p)" and r1: "map_of res q1 = Some gq1" and le: "g \<le> gq1 + 1"
        by blast
      from e1 obtain Q1 p' where Q1: "Q1 \<in> set people" "pid Q1 = q1" and p': "p' \<in> set people"
        "pid p' = pid p" "q1 \<in> set (parentIds p')"
        by (auto simp: child_edge_buildChildrenMap)
      with same[of p'] have Q1p: "Q1 \<in> set (present_parents people p)"
        by (auto simp: present_parents_def)
      from below[OF Q1p] Q1 r1 have "gq1 < g" by (simp add: gen_of)
      with le have gq1: "gq1 = g - 1" by simp
      have top: "generation_or_0 gens (pid Q1) = g - 1"
        using Q1 r1 gq1 by (simp add: gen_of)
      have ub: "v \<le> g - 1" if "v \<in> set ?vals" for v
      proof -
        from that obtain Q where Q: "Q \<in> set (present_parents people p)"
          and v: "v = generation_or_0 gens (pid Q)" by auto
        show ?thesis
        proof (cases "map_of res (pid Q)")
          case None
          with v show ?thesis by (simp add: gen_of)
        next
          case (Some gQ)
          with below[OF Q] v show ?thesis by simp
        qed
      qed
      have "g - 1 \<in> set ?vals"
        using Q1p top by force
      with ub have "Max (set ?vals) = g - 1"
        by (intro Max_eqI) auto
      with pos reach False g show ?thesis
        by (simp add: parent_rule_generation_def gen_of)
    qed
  qed
qed

text \<open>
  Claim C1, as the code has it. \<open>calculateGenerations\<close> has no spouse rule: replacing
  the \<open>spouseIds\<close> of every person by anything leaves its result as it is. For a people
  list with unique ids on which it returns, every person of the list gets the generation
  of the parent rule. So two persons of the list, in particular two who list each other in
  \<open>spouseIds\<close>, get the same generation exactly when the parent rule gives them the same
  value.
\<close>

theorem spouse_generations_by_parent_rule:
  assumes "distinct (map pid people)" and "calculateGenerations people = Some gens"
  shows "(\<forall>f. calculateGenerations (map (\<lambda>r. r\<lparr>spouseIds := f r\<rparr>) people) = Some gens)
       \<and> (\<forall>p. p \<in> set people \<longrightarrow>
            generation_or_0 gens (pid p) = parent_rule_generation people gens p)
       \<and> (\<forall>p q. p \<in> set people \<and> q \<in> set people \<longrightarrow>
            (generation_or_0 gens (pid p) = generation_or_0 gens (pid q)
               \<longleftrightarrow> parent_rule_generation people gens p = parent_rule_generation people gens q))"
  using assms generation_by_parent_rule[OF assms] calculateGenerations_spouseIds
  by simp

theorem spouse_generations_by_parent_rule_witness:
  "distinct (map pid [ex_R1, ex_R2, ex_X, ex_Y])
   \<and> calculateGenerations [ex_R1, ex_R2, ex_X, ex_Y]
       = Some [(''r1'', 0), (''r2'', 0), (''x'', 1), (''y'', 1)]
   \<and> pid ex_Y \<in> set (spouseIds ex_X) \<and> pid ex_X \<in> set (spouseIds ex_Y)
   \<and> calculateGenerations (map (\<lambda>r. r\<lparr>spouseIds := []\<rparr>) [ex_R1, ex_R2, ex_X, ex_Y])
       = Some [(''r1'', 0), (''r2'', 0), (''x'', 1), (''y'', 1)]
   \<and> parent_rule_generation [ex_R1, ex_R2, ex_X, ex_Y]
         [(''r1'', 0), (''r2'', 0), (''x'', 1), (''y'', 1)] ex_X = 1
   \<and> parent_rule_generation [ex_R1, ex_R2, ex_X, ex_Y]
         [(''r1'', 0), (''r2'', 0), (''x'', 1), (''y'', 1)] ex_Y = 1
   \<and> generation_or_0 [(''r1'', 0), (''r2'', 0), (''x'', 1), (''y'', 1)] (pid ex_X)
       = generation_or_0 [(''r1'', 0), (''r2'', 0), (''x'', 1), (''y'', 1)] (pid ex_Y)"
proof -
  let ?G = "[ex_R1, ex_R2, ex_X, ex_Y]"
  let ?gens = "[(''r1'', 0::nat), (''r2'', 0), (''x'', 1), (''y'', 1)]"
  have d: "distinct (map pid ?G)"
    by (simp add: ex_R1_def ex_R2_def ex_X_def ex_Y_def createEmptyPerson_def)
  have g: "calculateGenerations ?G = Some ?gens"
    by code_simp
  have s: "pid ex_Y \<in> set (spouseIds ex_X) \<and> pid ex_X \<in> set (spouseIds ex_Y)"
    by (simp add: ex_X_def ex_Y_def createEmptyPerson_def)
  have r1: "root_reachable ?G (pid ex_R1)"
    by (rule reach_root) (simp_all add: ex_R1_def createEmptyPerson_def)
  have r2: "root_reachable ?G (pid ex_R2)"
    by (rule reach_root) (simp_all add: ex_R2_def createEmptyPerson_def)
  have "root_reachable ?G (pid ex_X)"
    by (rule reach_child[OF r1]) (simp_all add: ex_R1_def ex_X_def createEmptyPerson_def)
  then have x: "parent_rule_generation ?G ?gens ex_X = 1"
    by (simp add: parent_rule_generation_def present_parents_def generation_or_0_def
          ex_R1_def ex_R2_def ex_X_def ex_Y_def createEmptyPerson_def)
  have "root_reachable ?G (pid ex_Y)"
    by (rule reach_child[OF r2]) (simp_all add: ex_R2_def ex_Y_def createEmptyPerson_def)
  then have y: "parent_rule_generation ?G ?gens ex_Y = 1"
    by (simp add: parent_rule_generation_def present_parents_def generation_or_0_def
          ex_R1_def ex_R2_def ex_X_def ex_Y_def createEmptyPerson_def)
  note t = spouse_generations_by_parent_rule[OF d g]
  from t have "\<forall>f. calculateGenerations (map (\<lambda>r. r\<lparr>spouseIds := f r\<rparr>) ?G) = Some ?gens"
    by (rule conjunct1)
  from this[THEN spec, of "\<lambda>r. []"]
  have i: "calculateGenerations (map (\<lambda>r. r\<lparr>spouseIds := []\<rparr>) ?G) = Some ?gens"
    by simp
  have m: "ex_X \<in> set ?G \<and> ex_Y \<in> set ?G"
    by simp
  from t m x y have "generation_or_0 ?gens (pid ex_X) = generation_or_0 ?gens (pid ex_Y)"
    by (metis (no_types, lifting))
  with d g s i x y show ?thesis by blast
qed

text \<open>
  The claim fails where the parent rule gives two spouses different values: \<open>c\<close> is the
  child of the root \<open>r\<close> and gets generation 1, its spouse \<open>w\<close> has no parents and
  stays at generation 0.
\<close>

theorem spouse_generation_counterexample:
  "ex_Rc \<in> set [ex_R, ex_Rc, ex_W] \<and> ex_W \<in> set [ex_R, ex_Rc, ex_W]
   \<and> pid ex_W \<in> set (spouseIds ex_Rc) \<and> pid ex_Rc \<in> set (spouseIds ex_W)
   \<and> calculateGenerations [ex_R, ex_Rc, ex_W] = Some [(''r'', 0), (''w'', 0), (''c'', 1)]
   \<and> generation_or_0 [(''r'', 0), (''w'', 0), (''c'', 1)] (pid ex_Rc)
       \<noteq> generation_or_0 [(''r'', 0), (''w'', 0), (''c'', 1)] (pid ex_W)"
proof -
  have "calculateGenerations [ex_R, ex_Rc, ex_W] = Some [(''r'', 0), (''w'', 0), (''c'', 1)]"
    by code_simp
  then show ?thesis
    by (simp add: ex_R_def ex_Rc_def ex_W_def createEmptyPerson_def generation_or_0_def)
qed


section \<open>Layout engine\<close>

lemma two_roots_generations:
  assumes "pid P1 \<noteq> pid P2" "parentIds P1 = []" "parentIds P2 = []"
  shows "calculateGenerations [P1, P2] = Some [(pid P1, 0), (pid P2, 0)]"
  using assms
  by (simp add: calculateGenerations_def buildChildrenMap_def findRoots_def
        generations_loop.simps raise_generation_def children_to_push_def
        handle_disconnected_def)

lemma two_roots_placed:
  assumes "pid P1 \<noteq> pid P2" "parentIds P1 = []" "parentIds P2 = []"
    and "pid P2 \<in> set (spouseIds P1)"
  shows "position_bottom lc 0 [P1, P2] \<lparr>store = h, nodePositions = [], positionedIds = []\<rparr>
       = \<lparr>store = h @ [\<lparr>posX = 100, posY = 100\<rparr>, \<lparr>posX = 280, posY = 100\<rparr>],
          nodePositions = [(pid P1, length h), (pid P2, Suc (length h))],
          positionedIds = [pid P1, pid P2]\<rparr>"
  using assms
  by (simp add: position_bottom_def all_groups_def group_by_parents_def position_group_def
        sort_by_def sibling_compare_def areSpouses_def place_def Set_add_def Let_def
        CANVAS_PADDING_def VERTICAL_SPACING_def CHILD_SPACING_def HORIZONTAL_SPACING_def
        UNIT_SPACING_def)

text \<open>
  Claim C6, as the code has it. For an input of exactly two persons with different ids who
  list each other as spouses and have no parents, with auto-align forced or no manual
  position, \<open>computeLayout\<close> gives both generation 0 and the same y, and their x
  coordinates differ by the horizontal spacing constant: the two are the lowest row, which
  is laid out left to right in steps of \<open>CHILD_SPACING\<close>, not as a couple unit.
\<close>

theorem two_spouses_layout:
  assumes "pid P1 \<noteq> pid P2"
    and "parentIds P1 = []" "parentIds P2 = []"
    and "pid P2 \<in> set (spouseIds P1)" "pid P1 \<in> set (spouseIds P2)"
    and "autoAlign \<or> (position P1 = None \<and> position P2 = None)"
  shows "computeLayout lc h [P1, P2] autoAlign =
           Some (h @ [\<lparr>posX = 100, posY = 100\<rparr>, \<lparr>posX = 100 + HORIZONTAL_SPACING, posY = 100\<rparr>],
                 \<lparr>nodes = [\<lparr>node_person = P1, computedPosition = length h, generation = 0\<rparr>,
                           \<lparr>node_person = P2, computedPosition = Suc (length h), generation = 0\<rparr>],
                  width = 900, height = 700\<rparr>)"
proof -
  have g: "calculateGenerations [P1, P2] = Some [(pid P1, 0), (pid P2, 0)]"
    using assms(1-3) by (rule two_roots_generations)
  have grp: "groupByGeneration [P1, P2] [(pid P1, 0), (pid P2, 0)] = [(0, [P1, P2])]"
    using assms(1) by (simp add: groupByGeneration_def generation_or_0_def)
  have pl: "position_bottom lc 0 [P1, P2] \<lparr>store = h, nodePositions = [], positionedIds = []\<rparr>
       = \<lparr>store = h @ [\<lparr>posX = 100, posY = 100\<rparr>, \<lparr>posX = 280, posY = 100\<rparr>],
          nodePositions = [(pid P1, length h), (pid P2, Suc (length h))],
          positionedIds = [pid P1, pid P2]\<rparr>"
    using assms(1-4) by (rule two_roots_placed)
  have cr: "create_node autoAlign [(pid P1, 0), (pid P2, 0)] [(pid P1, length h), (pid P2, Suc (length h))] P2
              (create_node autoAlign [(pid P1, 0), (pid P2, 0)] [(pid P1, length h), (pid P2, Suc (length h))] P1
                 (h @ [\<lparr>posX = 100, posY = 100\<rparr>, \<lparr>posX = 280, posY = 100\<rparr>], []))
          = (h @ [\<lparr>posX = 100, posY = 100\<rparr>, \<lparr>posX = 280, posY = 100\<rparr>],
             [\<lparr>node_person = P1, computedPosition = length h, generation = 0\<rparr>,
              \<lparr>node_person = P2, computedPosition = Suc (length h), generation = 0\<rparr>])"
    using assms(1,6) by (auto simp: create_node_def generation_or_0_def split: option.splits)
  show ?thesis
    unfolding computeLayout_def g
    by (simp add: grp pl cr Let_def normalize_def nth_append CANVAS_PADDING_def HORIZONTAL_SPACING_def)
qed

theorem two_spouses_layout_witness:
  "computeLayout ex_localeCompare [] [ex_S1, ex_S2] False =
     Some ([\<lparr>posX = 100, posY = 100\<rparr>, \<lparr>posX = 280, posY = 100\<rparr>],
           \<lparr>nodes = [\<lparr>node_person = ex_S1, computedPosition = 0, generation = 0\<rparr>,
                     \<lparr>node_person = ex_S2, computedPosition = Suc 0, generation = 0\<rparr>],
            width = 900, height = 700\<rparr>)"
  using two_spouses_layout[of ex_S1 ex_S2 False ex_localeCompare "[]"]
  by (simp add: ex_S1_def ex_S2_def createEmptyPerson_def HORIZONTAL_SPACING_def)

text \<open>
  The two x coordinates are 180 apart, which is neither the spouse spacing nor its half.
\<close>

theorem couple_half_spacing_counterexample:
  "map_option layout_coordinates (computeLayout ex_localeCompare [] [ex_S1, ex_S2] False)
     = Some [(''s1'', 100, 100), (''s2'', 280, 100)]
   \<and> (280 - 100 :: rat) \<noteq> SPOUSE_SPACING / 2"
proof -
  have "map_option layout_coordinates (computeLayout ex_localeCompare [] [ex_S1, ex_S2] False)
          = Some [(''s1'', 100, 100), (''s2'', 280, 100)]"
    by code_simp
  then show ?thesis by (simp add: SPOUSE_SPACING_def)
qed

text \<open>
  Claim C7 fails on the code. The person \<open>a\<close> has the spouses \<open>b\<close> and \<open>c\<close> in its
  generation, and \<open>d\<close> is the child of \<open>a\<close> and \<open>b\<close>. The two couple units of \<open>a\<close>
  get the same centre (the x of \<open>d\<close>, the only child of either unit), \<open>a\<close> is placed
  once, and both spouses are placed half a couple gap to the right of that centre: \<open>b\<close>
  and \<open>c\<close> receive the same coordinates.
\<close>

theorem multi_spouse_overlap:
  "map_option layout_coordinates (computeLayout lc [] [ex_A, ex_B, ex_C, ex_D] autoAlign)
     = Some [(''a'', 100, 100), (''b'', 200, 100), (''c'', 200, 100), (''d'', 150, 280)]"
proof -
  have T: "map_option layout_coordinates (computeLayout lc [] [ex_A, ex_B, ex_C, ex_D] True)
     = Some [(''a'', 100, 100), (''b'', 200, 100), (''c'', 200, 100), (''d'', 150, 280)]"
    by code_simp
  have F: "map_option layout_coordinates (computeLayout lc [] [ex_A, ex_B, ex_C, ex_D] False)
     = Some [(''a'', 100, 100), (''b'', 200, 100), (''c'', 200, 100), (''d'', 150, 280)]"
    by code_simp
  from T F show ?thesis by (cases autoAlign) simp_all
qed

text \<open>
  Claim C4 fails on the code. Without auto-align the node of a person with a manual
  position takes that \<open>position\<close> object itself as its \<open>computedPosition\<close>, and the
  normalization shift adds to the x of that object. The store holds the person's position
  at address 0 with x = 50 before the call and with x = 100 after it.
\<close>

theorem computeLayout_shifts_manual_position:
  "map_option fst (computeLayout lc [\<lparr>posX = 50, posY = 50\<rparr>] [ex_M] False)
     = Some [\<lparr>posX = 100, posY = 50\<rparr>, \<lparr>posX = 100, posY = 100\<rparr>]"
  by code_simp

text \<open>
  With auto-align forced the node of the same person refers to a new object, and the
  person's own position object is left as it was.
\<close>

lemma computeLayout_autoAlign_keeps_manual_position:
  "map_option fst (computeLayout lc [\<lparr>posX = 50, posY = 50\<rparr>] [ex_M] True)
     = Some [\<lparr>posX = 50, posY = 50\<rparr>, \<lparr>posX = 100, posY = 100\<rparr>]"
  by code_simp

text \<open>
  More generally, the \<open>Position\<close> objects of the input are left as they were whenever
  auto-align is forced or no person has a manual position: every node then refers to an
  object created during the call.
\<close>

lemma set_update_subset: "set (AList.update k v al) \<subseteq> insert (k, v) (set al)"
  by (induction al) auto

lemma fresh_place: "fresh_placement h st \<Longrightarrow> fresh_placement h (place st i px py)"
  using set_update_subset[of i "length (store st)" "nodePositions st"]
  by (auto simp: fresh_placement_def place_def)

lemma fresh_place_if_new: "fresh_placement h st \<Longrightarrow> fresh_placement h (place_if_new st i px py)"
  by (simp add: place_if_new_def fresh_place)

lemma fresh_position_group:
  "fresh_placement h (fst a) \<Longrightarrow> fresh_placement h (fst (position_group lc py members a))"
proof -
  have "fresh_placement h (fst a) \<Longrightarrow>
        fresh_placement h (fst (fold (\<lambda>p a. if pid p \<notin> set (positionedIds (fst a))
            then (place (fst a) (pid p) (snd a) py, snd a + CHILD_SPACING) else a) ps a))" for ps
    by (induction ps arbitrary: a) (auto simp: fresh_place)
  then show "fresh_placement h (fst a) \<Longrightarrow> ?thesis"
    by (simp add: position_group_def)
qed

lemma fresh_position_bottom:
  assumes "fresh_placement h st"
  shows "fresh_placement h (position_bottom lc gen genPeople st)"
proof -
  have "fresh_placement h (fst a) \<Longrightarrow>
        fresh_placement h (fst (fold (\<lambda>g a.
                     let b = position_group lc py (fst g) a
                     in if snd g < n then (fst b, snd b + UNIT_SPACING) else b) gs a))"
    for gs :: "(Person list \<times> nat) list" and a py n
    by (induction gs arbitrary: a) (auto simp: Let_def fresh_position_group)
  with assms show ?thesis
    by (simp add: position_bottom_def Let_def)
qed

lemma fresh_position_unit:
  "fresh_placement h st \<Longrightarrow> fresh_placement h (position_unit cm py unit st)"
  by (auto simp: position_unit_def Let_def fresh_place_if_new split: list.splits)

lemma fresh_position_upper:
  assumes "fresh_placement h st"
  shows "fresh_placement h (position_upper pm cm gens gen genPeople st)"
proof -
  have "fresh_placement h st \<Longrightarrow> fresh_placement h (fold (position_unit cm py) us st)" for us st py
    by (induction us arbitrary: st) (auto simp: fresh_position_unit)
  with assms show ?thesis by (simp add: position_upper_def)
qed

lemma fresh_create_node:
  assumes "fresh_nodes h acc" "\<forall>e\<in>set np. length h \<le> snd e"
    and "autoAlign \<or> position p = None"
  shows "fresh_nodes h (create_node autoAlign gens np p acc)"
proof (cases "map_of np (pid p)")
  case None
  with assms show ?thesis
    by (auto simp: fresh_nodes_def create_node_def Let_def split: option.splits)
next
  case (Some a)
  then have "(pid p, a) \<in> set np" by (rule map_of_SomeD)
  with assms(2) have "length h \<le> a" by force
  with Some assms show ?thesis
    by (auto simp: fresh_nodes_def create_node_def Let_def split: option.splits)
qed

lemma fresh_create_nodes:
  assumes "fresh_nodes h acc" "\<forall>e\<in>set np. length h \<le> snd e"
    and "autoAlign \<or> (\<forall>p\<in>set ps. position p = None)"
  shows "fresh_nodes h (fold (create_node autoAlign gens np) ps acc)"
  using assms
proof (induction ps arbitrary: acc)
  case Nil
  then show ?case by simp
next
  case (Cons p ps)
  from Cons.prems have "fresh_nodes h (create_node autoAlign gens np p acc)"
    by (intro fresh_create_node) auto
  from Cons.IH[OF this Cons.prems(2)] Cons.prems(3) show ?case by auto
qed

lemma shift_nodes_keep:
  assumes "\<forall>n\<in>set ns. length h \<le> computedPosition n"
  shows "take (length h) (fold (shift_node d) ns h') = take (length h) h'"
  using assms by (induction ns arbitrary: h') (auto simp: shift_node_def)

lemma normalize_keep:
  assumes "fresh_nodes h acc"
  shows "take (length h) (normalize (snd acc) (fst acc)) = h"
  using assms shift_nodes_keep[of "snd acc" h _ "fst acc"]
  by (auto simp: normalize_def fresh_nodes_def Let_def)

lemma computeLayout_keeps_input_store:
  assumes "computeLayout lc h people autoAlign = Some (h', r)"
    and "autoAlign \<or> (\<forall>p\<in>set people. position p = None)"
  shows "take (length h) h' = h"
proof (cases "people = []")
  case True
  with assms(1) show ?thesis by (simp add: computeLayout_def)
next
  case False
  from False assms(1) obtain gens where g: "calculateGenerations people = Some gens"
    by (auto simp: computeLayout_def split: option.splits)
  define placed where "placed =
     fold (\<lambda>gen st.
            let genPeople = (case map_of (groupByGeneration people gens) gen of
                               Some ps \<Rightarrow> ps | None \<Rightarrow> [])
            in if gen = Math_max (map snd gens)
               then position_bottom lc gen genPeople st
               else position_upper (Map_from_entries (map (\<lambda>p. (pid p, p)) people))
                      (buildChildrenMap people) gens gen genPeople st)
       (rev [0..<Suc (Math_max (map snd gens))])
       \<lparr>store = h, nodePositions = [], positionedIds = []\<rparr>"
  define created where
    "created = fold (create_node autoAlign gens (nodePositions placed)) people (store placed, [])"
  have step: "fresh_placement h st \<Longrightarrow>
      fresh_placement h (fold (\<lambda>gen st.
            let genPeople = (case map_of (groupByGeneration people gens) gen of
                               Some ps \<Rightarrow> ps | None \<Rightarrow> [])
            in if gen = Math_max (map snd gens)
               then position_bottom lc gen genPeople st
               else position_upper (Map_from_entries (map (\<lambda>p. (pid p, p)) people))
                      (buildChildrenMap people) gens gen genPeople st) gs st)" for gs st
    by (induction gs arbitrary: st) (auto simp: Let_def fresh_position_bottom fresh_position_upper)
  have "fresh_placement h \<lparr>store = h, nodePositions = [], positionedIds = []\<rparr>"
    by (simp add: fresh_placement_def)
  from step[OF this] have fp: "fresh_placement h placed"
    unfolding placed_def .
  then have "fresh_nodes h (store placed, [])"
    by (simp add: fresh_nodes_def fresh_placement_def)
  moreover from fp have "\<forall>e\<in>set (nodePositions placed). length h \<le> snd e"
    by (simp add: fresh_placement_def)
  ultimately have "fresh_nodes h created"
    unfolding created_def using assms(2) by (rule fresh_create_nodes)
  then have "take (length h) (normalize (snd created) (fst created)) = h"
    by (rule normalize_keep)
  moreover have "h' = normalize (snd created) (fst created)"
    using assms(1) False g
    by (simp add: computeLayout_def Let_def placed_def created_def)
  ultimately show ?thesis by simp
qed


end
